theory Spec2Isabelle
  imports Main
begin

section \<open>Data model\<close>

text \<open>
  The embedding follows the later of the two versions of the menu module kept in the
  repository (the one with \<open>isMoving\<close>, \<open>menuOffsetItems\<close> and \<open>clickItem\<close>); the earlier
  version has the same \<open>add\<close>, \<open>repositionNodes\<close>, \<open>moveToNext\<close> and \<open>moveToPrev\<close> apart
  from the \<open>isMoving\<close> guard and the group offset.

  Coordinates are JavaScript numbers in the source. They are modelled as integers, that
  is, for integer-valued spacing vectors, on which the additions and negations of the
  source are exact. Durations and scale values only parameterise requests to the motion
  engine and are left out of the requests recorded here.
\<close>

datatype vec3 = Vec3 (vx: int) (vy: int) (vz: int)

definition vadd :: "vec3 \<Rightarrow> vec3 \<Rightarrow> vec3" where
  "vadd a b = Vec3 (vx a + vx b) (vy a + vy b) (vz a + vz b)"

definition vsub :: "vec3 \<Rightarrow> vec3 \<Rightarrow> vec3" where
  "vsub a b = Vec3 (vx a - vx b) (vy a - vy b) (vz a - vz b)"

definition vneg :: "vec3 \<Rightarrow> vec3" where
  "vneg a = Vec3 (- vx a) (- vy a) (- vz a)"

definition vscale :: "int \<Rightarrow> vec3 \<Rightarrow> vec3" where
  "vscale k a = Vec3 (k * vx a) (k * vy a) (k * vz a)"

definition vzero :: vec3 where
  "vzero = Vec3 0 0 0"

text \<open>
  Objects of the source live in a store: a \<open>MenuNode\<close> is referred to by its address, the
  index at which \<open>new MenuNode\<close> put it into the list of all nodes created so far.
  \<open>null\<close> and \<open>undefined\<close> references are \<open>None\<close>.
\<close>

type_synonym ref = nat

text \<open>
  \<open>function MenuNode(_node, _action, _id)\<close>. The fields \<open>position\<close> and \<open>itemTag\<close> are
  those of the mesh the node wraps (\<open>node.node.item\<close>).
\<close>

record MenuNode =
  id_of :: nat
  selected :: bool
  action :: "nat option"
  next_of :: "ref option"
  prev_of :: "ref option"
  position :: vec3
  itemTag :: nat

text \<open>Requests handed to the motion engine (\<open>gsap.to\<close>, \<open>gsap.fromTo\<close>) and direct
  writes to a mesh's scale, in the order they are issued.\<close>

datatype motion =
    MoveTo ref vec3
  | ScaleSet ref
  | ScaleRestore ref
  | ScaleZero ref
  | FadeIn ref
  | Pulse ref "nat option"

text \<open>The module-level variables (\<open>let keyPressed ...\<close>), the store and the requests.\<close>

record modstate =
  keyPressed :: bool
  clicked :: bool
  isMoving :: bool
  leftEdge :: "ref option"
  rightEdge :: "ref option"
  firstNode :: "ref option"
  latestNode :: "ref option"
  nodeToSelect :: "ref option"
  nextNodeID :: nat
  heap :: "MenuNode list"
  motions :: "motion list"

text \<open>The fields of a \<open>Menu\<close> instance that the navigation and layout code reads or writes.\<close>

record menu =
  itemTray :: "ref list"
  itemSelected :: nat
  enabled :: bool
  opened :: bool
  itemCount :: nat
  gapBetweenItems :: vec3
  menuOffsetItems :: vec3
  groupPosition :: vec3
  revolvingMenu :: bool
  openBehavior :: int

text \<open>The optional \<open>_properties\<close> argument of the constructor; an absent or wrongly typed
  entry is \<open>None\<close>.\<close>

record properties =
  p_gapBetweenItems :: "(int option \<times> int option \<times> int option) option"
  p_menuOffsetItems :: "(int option \<times> int option \<times> int option) option"
  p_revolvingMenu :: "bool option"
  p_openBehavior :: "int option"

datatype error = TypeError

definition OPEN_NOTRANSITION :: int where "OPEN_NOTRANSITION = 0"
definition OPEN_GROW :: int where "OPEN_GROW = 1"
definition OPEN_TRANSPARENCY :: int where "OPEN_TRANSPARENCY = 2"

text \<open>The module state when the module has just been loaded.\<close>

definition module_init :: modstate where
  "module_init = \<lparr> keyPressed = False, clicked = False, isMoving = False,
     leftEdge = None, rightEdge = None, firstNode = None, latestNode = None,
     nodeToSelect = None, nextNodeID = 0, heap = [], motions = [] \<rparr>"

section \<open>Store access\<close>

text \<open>Reading a property of \<open>null\<close> or \<open>undefined\<close> raises a \<open>TypeError\<close>.\<close>

definition deref :: "modstate \<Rightarrow> ref option \<Rightarrow> error + MenuNode" where
  "deref g r = (case r of None \<Rightarrow> Inl TypeError
     | Some a \<Rightarrow> if a < length (heap g) then Inr (heap g ! a) else Inl TypeError)"

definition sbind :: "error + 'a \<Rightarrow> ('a \<Rightarrow> error + 'b) \<Rightarrow> error + 'b" where
  "sbind x f = (case x of Inl e \<Rightarrow> Inl e | Inr v \<Rightarrow> f v)"

definition upd_node :: "ref \<Rightarrow> (MenuNode \<Rightarrow> MenuNode) \<Rightarrow> modstate \<Rightarrow> modstate" where
  "upd_node a f g = g\<lparr>heap := (heap g)[a := f (heap g ! a)]\<rparr>"

text \<open>Writing a property through a reference: \<open>r.f = v\<close>.\<close>

definition assign :: "ref option \<Rightarrow> (MenuNode \<Rightarrow> MenuNode) \<Rightarrow> modstate \<Rightarrow> error + modstate" where
  "assign r f g = (case r of None \<Rightarrow> Inl TypeError
     | Some a \<Rightarrow> if a < length (heap g) then Inr (upd_node a f g) else Inl TypeError)"

definition request :: "motion \<Rightarrow> modstate \<Rightarrow> modstate" where
  "request r g = g\<lparr>motions := motions g @ [r]\<rparr>"

section \<open>The ring walk shared by the loops\<close>

text \<open>
  Every loop over the ring in the source has the shape
  \<^verbatim>\<open>do { body; current = current.next } while (current.id != firstNode.id)\<close>
  (with \<open>prev\<close> for \<open>next\<close> in \<open>moveToPrev\<close>). \<open>ringDo\<close> is that loop: \<open>gs\<close> projects the
  module state out of the loop's state, \<open>step\<close> is the link followed and \<open>body\<close> the loop
  body. A loop that never comes back to a node with the first node's id does not return:
  the value is \<open>None\<close>.
\<close>

partial_function (option) ringDo ::
  "('s \<Rightarrow> modstate) \<Rightarrow> (MenuNode \<Rightarrow> ref option) \<Rightarrow> (ref \<Rightarrow> 's \<Rightarrow> error + 's) \<Rightarrow>
   ref option \<Rightarrow> 's \<Rightarrow> (error + 's) option" where
  "ringDo gs step body current s =
     (case current of
        None \<Rightarrow> Some (Inl TypeError)
      | Some c \<Rightarrow>
         (case body c s of
            Inl e \<Rightarrow> Some (Inl e)
          | Inr s' \<Rightarrow>
             (case deref (gs s') (Some c) of
                Inl e \<Rightarrow> Some (Inl e)
              | Inr cur \<Rightarrow>
                 (case deref (gs s') (step cur) of
                    Inl e \<Rightarrow> Some (Inl e)
                  | Inr nxt \<Rightarrow>
                     (case deref (gs s') (firstNode (gs s')) of
                        Inl e \<Rightarrow> Some (Inl e)
                      | Inr first \<Rightarrow>
                         if id_of nxt \<noteq> id_of first
                         then ringDo gs step body (step cur) s'
                         else Some (Inr s'))))))"

declare ringDo.simps [code]

section \<open>Construction: \<open>Menu\<close> and \<open>init\<close>\<close>

definition pick :: "int option \<Rightarrow> int \<Rightarrow> int" where
  "pick v d = (case v of Some n \<Rightarrow> n | None \<Rightarrow> d)"

definition read_vec :: "(int option \<times> int option \<times> int option) option \<Rightarrow> vec3 \<Rightarrow> vec3" where
  "read_vec p d = (case p of None \<Rightarrow> d
     | Some (x, y, z) \<Rightarrow> Vec3 (pick x (vx d)) (pick y (vy d)) (pick z (vz d)))"

text \<open>
  \<open>Menu.prototype.init\<close>. It resets the module-level counter, selection and edges, then
  reads the properties. The revolving flag is read by
  \<^verbatim>\<open>(_properties && _properties.revolvingMenu) ? _properties.revolvingMenu : true\<close>.
\<close>

definition init :: "properties option \<Rightarrow> menu \<Rightarrow> modstate \<Rightarrow> menu \<times> modstate" where
  "init props m g =
     (let g' = g\<lparr>nextNodeID := 0, nodeToSelect := None, leftEdge := None, rightEdge := None\<rparr>;
          gap = (case props of None \<Rightarrow> Vec3 1 0 0
                 | Some p \<Rightarrow> read_vec (p_gapBetweenItems p) (Vec3 1 0 0));
          off = (case props of None \<Rightarrow> Vec3 0 0 0
                 | Some p \<Rightarrow> read_vec (p_menuOffsetItems p) (Vec3 0 0 0));
          rev = (case props of None \<Rightarrow> True
                 | Some p \<Rightarrow> (case p_revolvingMenu p of
                      Some b \<Rightarrow> (if b then b else True)
                    | None \<Rightarrow> True));
          ob = (case props of None \<Rightarrow> OPEN_NOTRANSITION
                | Some p \<Rightarrow> (case p_openBehavior p of
                     Some k \<Rightarrow> (if k \<noteq> 0 then k else OPEN_NOTRANSITION)
                   | None \<Rightarrow> OPEN_NOTRANSITION))
      in (m\<lparr>gapBetweenItems := gap, menuOffsetItems := off, revolvingMenu := rev,
            openBehavior := ob\<rparr>, g'))"

text \<open>\<open>function Menu(_scene, _camera, _properties)\<close>: the fields, then \<open>init\<close>.
  (\<open>reload\<close> only attaches the group to the scene and registers the event listeners.)\<close>

definition Menu :: "properties option \<Rightarrow> modstate \<Rightarrow> menu \<times> modstate" where
  "Menu props g =
     init props \<lparr> itemTray = [], itemSelected = 0, enabled = True, opened = False,
       itemCount = 0, gapBetweenItems = vzero, menuOffsetItems = vzero,
       groupPosition = vzero, revolvingMenu = True, openBehavior = 0 \<rparr> g"

section \<open>Layout: \<open>repositionNodes\<close>\<close>

text \<open>One pass of the loop body of \<open>repositionNodes\<close>; the loop's state is the running
  coordinate \<open>pos\<close> and the module state.\<close>

definition repositionStep ::
  "menu \<Rightarrow> nat \<Rightarrow> bool \<Rightarrow> ref \<Rightarrow> vec3 \<times> modstate \<Rightarrow> error + vec3 \<times> modstate" where
  "repositionStep m median isEven c pg =
     (let pos = vadd (fst pg) (gapBetweenItems m);
          g1 = upd_node c (\<lambda>n. n\<lparr>position := pos\<rparr>) (snd pg)
      in sbind (deref g1 (Some c)) (\<lambda>cur.
           let g2 = (if (nextNodeID g1 = 2 \<and> id_of cur = 1) \<or> id_of cur = median + 1
                     then g1\<lparr>leftEdge := Some c\<rparr> else g1);
               medianFactor = (if isEven then 0 else 1);
               pos' = (if id_of cur = median
                       then vneg (vadd (position cur) (vscale medianFactor (gapBetweenItems m)))
                       else pos);
               g3 = (if id_of cur = median then g2\<lparr>rightEdge := Some c\<rparr> else g2);
               g4 = (if openBehavior m = OPEN_GROW then request (ScaleSet c) g3 else g3)
           in Inr (pos', g4)))"

definition repositionNodes :: "menu \<Rightarrow> modstate \<Rightarrow> (error + vec3 \<times> menu \<times> modstate) option" where
  "repositionNodes m g =
     (let m1 = m\<lparr>groupPosition := vzero\<rparr>;
          pos = vsub vzero (gapBetweenItems m1);
          total = nextNodeID g;
          isEven = (total mod 2 = 0);
          median = total div 2
      in case ringDo snd next_of (repositionStep m1 median isEven) (firstNode g) (pos, g) of
           None \<Rightarrow> None
         | Some (Inl e) \<Rightarrow> Some (Inl e)
         | Some (Inr (pos', g')) \<Rightarrow>
             Some (Inr (pos', m1\<lparr>groupPosition := vadd (groupPosition m1) (menuOffsetItems m1)\<rparr>, g')))"

section \<open>Insertion: \<open>add\<close>\<close>

text \<open>
  \<open>Menu.prototype.add\<close>, called with a mesh object. The node's id is the third argument
  of \<open>new MenuNode(item, _doOnSelect, this.itemTray.length, nextNodeID)\<close>, the length of
  this instance's tray; the mesh is tagged with the module-level counter.
\<close>

definition add :: "nat option \<Rightarrow> menu \<Rightarrow> modstate \<Rightarrow> (error + menu \<times> modstate) option" where
  "add doOnSelect m g =
     (let a = length (heap g);
          node = \<lparr> id_of = length (itemTray m), selected = False, action = doOnSelect,
                   next_of = None, prev_of = None, position = vzero, itemTag = 0 \<rparr>;
          g1 = g\<lparr>heap := heap g @ [node]\<rparr>;
          g2 = (if nextNodeID g1 = 0
                then (upd_node a (\<lambda>n. n\<lparr>selected := True\<rparr>) g1)
                       \<lparr>firstNode := Some a, latestNode := Some a, nodeToSelect := Some a\<rparr>
                else g1);
          g3 = upd_node a (\<lambda>n. n\<lparr>prev_of := latestNode g2\<rparr>) g2;
          g4 = upd_node a (\<lambda>n. n\<lparr>next_of := firstNode g3\<rparr>) g3
      in case sbind (deref g4 (Some a)) (\<lambda>nd. assign (prev_of nd) (\<lambda>n. n\<lparr>next_of := Some a\<rparr>) g4) of
           Inl e \<Rightarrow> Some (Inl e)
         | Inr g5 \<Rightarrow>
            (case sbind (deref g5 (Some a)) (\<lambda>nd. assign (next_of nd) (\<lambda>n. n\<lparr>prev_of := Some a\<rparr>) g5) of
               Inl e \<Rightarrow> Some (Inl e)
             | Inr g6 \<Rightarrow>
                (let g7 = g6\<lparr>latestNode := Some a\<rparr>;
                     g8 = upd_node a (\<lambda>n. n\<lparr>itemTag := nextNodeID g7\<rparr>) g7;
                     g9 = g8\<lparr>nextNodeID := nextNodeID g8 + 1\<rparr>;
                     g10 = upd_node a (\<lambda>n. n\<lparr>position := vzero\<rparr>) g9;
                     m1 = m\<lparr>itemTray := itemTray m @ [a], itemCount := itemCount m + 1\<rparr>
                 in case repositionNodes m1 g10 of
                      None \<Rightarrow> None
                    | Some (Inl e) \<Rightarrow> Some (Inl e)
                    | Some (Inr (_, m2, g11)) \<Rightarrow> Some (Inr (m2, g11)))))"

text \<open>\<open>add\<close> called \<open>n\<close> times in a row (without callbacks).\<close>

fun add_items :: "nat \<Rightarrow> menu \<times> modstate \<Rightarrow> (error + menu \<times> modstate) option" where
  "add_items 0 mg = Some (Inr mg)"
| "add_items (Suc n) mg =
     (case add_items n mg of
        None \<Rightarrow> None
      | Some (Inl e) \<Rightarrow> Some (Inl e)
      | Some (Inr (m, g)) \<Rightarrow> add None m g)"

text \<open>The node reached from \<open>r\<close> by following \<open>next\<close> \<open>k\<close> times; \<open>traversal g k\<close> is the
  node at traversal index \<open>k\<close>, counted from the first-inserted node.\<close>

fun follow :: "modstate \<Rightarrow> nat \<Rightarrow> ref option \<Rightarrow> ref option" where
  "follow g 0 r = r"
| "follow g (Suc k) r =
     (case deref g r of Inl _ \<Rightarrow> None | Inr nd \<Rightarrow> follow g k (next_of nd))"

definition traversal :: "modstate \<Rightarrow> nat \<Rightarrow> ref option" where
  "traversal g k = follow g k (firstNode g)"


section \<open>Rotation: \<open>moveToNext\<close> and \<open>moveToPrev\<close>\<close>

text \<open>The loop body of \<open>moveToNext\<close>: the node at \<open>leftEdge\<close> is first put one gap beyond
  its predecessor and becomes \<open>rightEdge\<close>; every node is sent one gap back; the selected
  node hands the selection to its successor.\<close>

definition moveToNextStep :: "menu \<Rightarrow> ref \<Rightarrow> modstate \<Rightarrow> error + modstate" where
  "moveToNextStep m c g =
     sbind (if Some c = leftEdge g
            then sbind (deref g (leftEdge g)) (\<lambda>le.
                 sbind (deref g (prev_of le)) (\<lambda>p.
                 sbind (assign (leftEdge g)
                          (\<lambda>n. n\<lparr>position := vadd (position p) (gapBetweenItems m)\<rparr>) g) (\<lambda>g'.
                 Inr (g'\<lparr>rightEdge := leftEdge g'\<rparr>))))
            else Inr g)
       (\<lambda>g1. sbind (deref g1 (Some c)) (\<lambda>cur.
          let g2 = request (MoveTo c (vsub (position cur) (gapBetweenItems m))) g1
          in if selected cur
             then Inr (upd_node c (\<lambda>n. n\<lparr>selected := False\<rparr>) (g2\<lparr>nodeToSelect := next_of cur\<rparr>))
             else Inr g2))"

text \<open>The guard of \<open>moveToNext\<close>; \<open>this.itemTray.length - 1\<close> is \<open>-1\<close> on an empty tray.\<close>

definition nextBlocked :: "menu \<Rightarrow> modstate \<Rightarrow> bool" where
  "nextBlocked m g \<longleftrightarrow>
     \<not> opened m \<or> nextNodeID g \<le> 1 \<or> isMoving g \<or>
     (\<not> revolvingMenu m \<and> int (itemSelected m) \<ge> int (length (itemTray m)) - 1)"

definition moveToNext :: "menu \<Rightarrow> modstate \<Rightarrow> (error + menu \<times> modstate) option" where
  "moveToNext m g =
     (if nextBlocked m g then Some (Inr (m, g\<lparr>keyPressed := False\<rparr>))
      else case ringDo (\<lambda>s. s) next_of (moveToNextStep m) (firstNode g) (g\<lparr>isMoving := True\<rparr>) of
             None \<Rightarrow> None
           | Some (Inl e) \<Rightarrow> Some (Inl e)
           | Some (Inr g1) \<Rightarrow>
               Some (sbind (deref g1 (leftEdge g1)) (\<lambda>le.
                     let g2 = g1\<lparr>leftEdge := next_of le\<rparr> in
                     sbind (assign (nodeToSelect g2) (\<lambda>n. n\<lparr>selected := True\<rparr>) g2) (\<lambda>g3.
                     sbind (deref g3 (nodeToSelect g3)) (\<lambda>sel.
                     Inr (m\<lparr>itemSelected := id_of sel\<rparr>, g3\<lparr>isMoving := False\<rparr>))))))"

definition moveToPrevStep :: "menu \<Rightarrow> ref \<Rightarrow> modstate \<Rightarrow> error + modstate" where
  "moveToPrevStep m c g =
     sbind (if Some c = rightEdge g
            then sbind (deref g (rightEdge g)) (\<lambda>re.
                 sbind (deref g (next_of re)) (\<lambda>nx.
                 sbind (assign (rightEdge g)
                          (\<lambda>n. n\<lparr>position := vsub (position nx) (gapBetweenItems m)\<rparr>) g) (\<lambda>g'.
                 Inr (g'\<lparr>leftEdge := rightEdge g'\<rparr>))))
            else Inr g)
       (\<lambda>g1. sbind (deref g1 (Some c)) (\<lambda>cur.
          let g2 = request (MoveTo c (vadd (position cur) (gapBetweenItems m))) g1
          in if selected cur
             then Inr (upd_node c (\<lambda>n. n\<lparr>selected := False\<rparr>) (g2\<lparr>nodeToSelect := prev_of cur\<rparr>))
             else Inr g2))"

definition prevBlocked :: "menu \<Rightarrow> modstate \<Rightarrow> bool" where
  "prevBlocked m g \<longleftrightarrow>
     \<not> opened m \<or> nextNodeID g \<le> 1 \<or> isMoving g \<or>
     (\<not> revolvingMenu m \<and> itemSelected m \<le> 0)"

definition moveToPrev :: "menu \<Rightarrow> modstate \<Rightarrow> (error + menu \<times> modstate) option" where
  "moveToPrev m g =
     (if prevBlocked m g then Some (Inr (m, g\<lparr>keyPressed := False\<rparr>))
      else case ringDo (\<lambda>s. s) prev_of (moveToPrevStep m) (firstNode g) (g\<lparr>isMoving := True\<rparr>) of
             None \<Rightarrow> None
           | Some (Inl e) \<Rightarrow> Some (Inl e)
           | Some (Inr g1) \<Rightarrow>
               Some (sbind (deref g1 (rightEdge g1)) (\<lambda>re.
                     let g2 = g1\<lparr>rightEdge := prev_of re\<rparr> in
                     sbind (assign (nodeToSelect g2) (\<lambda>n. n\<lparr>selected := True\<rparr>) g2) (\<lambda>g3.
                     sbind (deref g3 (nodeToSelect g3)) (\<lambda>sel.
                     Inr (m\<lparr>itemSelected := id_of sel\<rparr>, g3\<lparr>isMoving := False\<rparr>))))))"

section \<open>Selection, opening and closing\<close>

text \<open>\<open>selectItem\<close>: the pulse is requested; \<open>keyPressed\<close> is cleared and the action runs
  only when the motion engine reports completion.\<close>

definition selectItem :: "menu \<Rightarrow> modstate \<Rightarrow> error + menu \<times> modstate" where
  "selectItem m g =
     (if \<not> opened m \<or> \<not> enabled m then Inr (m, g\<lparr>keyPressed := False\<rparr>)
      else sbind (deref g (nodeToSelect g)) (\<lambda>sel.
             Inr (m, request (Pulse (the (nodeToSelect g)) (action sel)) g)))"

definition open_menu :: "menu \<Rightarrow> modstate \<Rightarrow> (error + menu \<times> modstate) option" where
  "open_menu m g =
     (if opened m then Some (Inr (m, g))
      else case (if openBehavior m = OPEN_GROW
                 then ringDo (\<lambda>s. s) next_of (\<lambda>c s. Inr (request (ScaleRestore c) s)) (firstNode g) g
                 else if openBehavior m = OPEN_TRANSPARENCY
                 then ringDo (\<lambda>s. s) next_of (\<lambda>c s. Inr (request (FadeIn c) s)) (firstNode g) g
                 else Some (Inr g)) of
             None \<Rightarrow> None
           | Some (Inl e) \<Rightarrow> Some (Inl e)
           | Some (Inr g1) \<Rightarrow> Some (Inr (m\<lparr>opened := True, enabled := True\<rparr>, g1)))"

definition close_menu :: "menu \<Rightarrow> modstate \<Rightarrow> (error + menu \<times> modstate) option" where
  "close_menu m g =
     (if \<not> opened m then Some (Inr (m, g))
      else case ringDo (\<lambda>s. s) next_of (\<lambda>c s. Inr (request (ScaleZero c) s)) (firstNode g) g of
             None \<Rightarrow> None
           | Some (Inl e) \<Rightarrow> Some (Inl e)
           | Some (Inr g1) \<Rightarrow> Some (Inr (m\<lparr>opened := False, enabled := False\<rparr>, g1)))"

section \<open>Jumping to a target: \<open>traversalCheck\<close> and \<open>clickItem\<close>\<close>

text \<open>\<open>traversalCheck(selectedNode, endNode, targetID, isLeft)\<close>; the argument \<open>current\<close>
  starts as \<open>selectedNode\<close>.\<close>

partial_function (option) traversalCheck ::
  "modstate \<Rightarrow> ref option \<Rightarrow> ref option \<Rightarrow> nat \<Rightarrow> bool \<Rightarrow> (error + bool) option" where
  "traversalCheck g current endNode targetID isLeft =
     (case deref g current of
        Inl e \<Rightarrow> Some (Inl e)
      | Inr cur \<Rightarrow>
         (case deref g endNode of
            Inl e \<Rightarrow> Some (Inl e)
          | Inr en \<Rightarrow>
             if id_of cur \<noteq> id_of en
             then (if id_of cur = targetID then Some (Inr True)
                   else if isLeft then traversalCheck g (prev_of cur) endNode targetID isLeft
                   else traversalCheck g (next_of cur) endNode targetID isLeft)
             else Some (Inr (id_of cur = targetID))))"

declare traversalCheck.simps [code]

text \<open>
  The interval timer that \<open>clickItem\<close> starts with \<open>setInterval\<close>: its direction
  (\<open>True\<close> for \<open>moveToNext\<close>) and the tag it waits for.
\<close>

datatype timer = Timer bool nat

text \<open>
  \<open>clickItem\<close>, after the ray cast: \<open>hit\<close> is the \<open>itemTag\<close> of the first object hit, or
  \<open>None\<close> when nothing is hit (or there is no event). The result gives the number of
  single-step rotations called at once (0 or 1) and the timer left running, if any.
\<close>

definition clickItem ::
  "menu \<Rightarrow> modstate \<Rightarrow> nat option \<Rightarrow> (error + nat \<times> timer option \<times> menu \<times> modstate) option" where
  "clickItem m g hit =
     (if \<not> opened m \<or> clicked g then Some (Inr (0, None, m, g))
      else case hit of
        None \<Rightarrow> Some (Inr (0, None, m, g))
      | Some tag \<Rightarrow>
         (case deref g (nodeToSelect g) of
            Inl e \<Rightarrow> Some (Inl e)
          | Inr sel \<Rightarrow>
             if id_of sel = tag
             then Some (sbind (selectItem m g) (\<lambda>(m1, g1). Inr (0, None, m1, g1)))
             else
              (case traversalCheck g (nodeToSelect g) (rightEdge g) tag False of
                 None \<Rightarrow> None
               | Some (Inl e) \<Rightarrow> Some (Inl e)
               | Some (Inr True) \<Rightarrow>
                  (case moveToNext m g of
                     None \<Rightarrow> None
                   | Some (Inl e) \<Rightarrow> Some (Inl e)
                   | Some (Inr (m1, g1)) \<Rightarrow>
                       Some (sbind (deref g1 (nodeToSelect g1)) (\<lambda>sel1.
                         Inr (1, if id_of sel1 \<noteq> tag then Some (Timer True tag) else None, m1, g1))))
               | Some (Inr False) \<Rightarrow>
                  (case traversalCheck g (nodeToSelect g) (leftEdge g) tag True of
                     None \<Rightarrow> None
                   | Some (Inl e) \<Rightarrow> Some (Inl e)
                   | Some (Inr True) \<Rightarrow>
                      (case moveToPrev m g of
                         None \<Rightarrow> None
                       | Some (Inl e) \<Rightarrow> Some (Inl e)
                       | Some (Inr (m1, g1)) \<Rightarrow>
                           Some (sbind (deref g1 (nodeToSelect g1)) (\<lambda>sel1.
                             Inr (1, if id_of sel1 \<noteq> tag then Some (Timer False tag) else None, m1, g1))))
                   | Some (Inr False) \<Rightarrow> Some (Inr (0, None, m, g))))))"

text \<open>One firing of the timer:
  \<^verbatim>\<open>this.moveToNext(); if (nodeToSelect.id == item.itemTag) clearInterval(timer);\<close>\<close>

definition timerTick ::
  "timer \<Rightarrow> menu \<Rightarrow> modstate \<Rightarrow> (error + timer option \<times> menu \<times> modstate) option" where
  "timerTick t m g =
     (case t of Timer forward tag \<Rightarrow>
        (case (if forward then moveToNext m g else moveToPrev m g) of
           None \<Rightarrow> None
         | Some (Inl e) \<Rightarrow> Some (Inl e)
         | Some (Inr (m1, g1)) \<Rightarrow>
             Some (sbind (deref g1 (nodeToSelect g1)) (\<lambda>sel.
               Inr (if id_of sel = tag then None else Some t, m1, g1)))))"

text \<open>The timer firing until it is cleared, with no other event in between; \<open>k\<close> counts the
  single-step rotations called so far. A timer that is never cleared gives \<open>None\<close>.\<close>

partial_function (option) runTimer ::
  "timer option \<Rightarrow> nat \<Rightarrow> menu \<Rightarrow> modstate \<Rightarrow> (error + nat \<times> menu \<times> modstate) option" where
  "runTimer t k m g =
     (case t of
        None \<Rightarrow> Some (Inr (k, m, g))
      | Some tm \<Rightarrow>
         (case timerTick tm m g of
            None \<Rightarrow> None
          | Some (Inl e) \<Rightarrow> Some (Inl e)
          | Some (Inr (t', m', g')) \<Rightarrow> runTimer t' (Suc k) m' g'))"

declare runTimer.simps [code]

text \<open>A click on the object tagged \<open>tag\<close>, followed by the timer's firings: the number of
  single-step rotations called in all, and the final state.\<close>

definition jumpTo :: "menu \<Rightarrow> modstate \<Rightarrow> nat \<Rightarrow> (error + nat \<times> menu \<times> modstate) option" where
  "jumpTo m g tag =
     (case clickItem m g (Some tag) of
        None \<Rightarrow> None
      | Some (Inl e) \<Rightarrow> Some (Inl e)
      | Some (Inr (k, t, m1, g1)) \<Rightarrow> runTimer t k m1 g1)"

section \<open>Command sequences\<close>

datatype command = Open | Close | Next | Prev | Select

definition perform :: "command \<Rightarrow> menu \<Rightarrow> modstate \<Rightarrow> (error + menu \<times> modstate) option" where
  "perform c m g =
     (case c of
        Open \<Rightarrow> open_menu m g
      | Close \<Rightarrow> close_menu m g
      | Next \<Rightarrow> moveToNext m g
      | Prev \<Rightarrow> moveToPrev m g
      | Select \<Rightarrow> Some (selectItem m g))"

fun run :: "command list \<Rightarrow> menu \<times> modstate \<Rightarrow> (error + menu \<times> modstate) option" where
  "run [] mg = Some (Inr mg)"
| "run (c # cs) mg =
     (case perform c (fst mg) (snd mg) of
        None \<Rightarrow> None
      | Some (Inl e) \<Rightarrow> Some (Inl e)
      | Some (Inr mg') \<Rightarrow> run cs mg')"

text \<open>A fresh menu with \<open>n\<close> items added: the constructor on the freshly loaded module,
  then \<open>n\<close> calls of \<open>add\<close>.\<close>

definition fresh :: "properties option \<Rightarrow> nat \<Rightarrow> (error + menu \<times> modstate) option" where
  "fresh props n = add_items n (Menu props module_init)"

text \<open>Commands performed on a fresh menu of \<open>n\<close> items.\<close>

definition session :: "properties option \<Rightarrow> nat \<Rightarrow> command list \<Rightarrow> (error + menu \<times> modstate) option" where
  "session props n cs =
     (case fresh props n of
        None \<Rightarrow> None
      | Some (Inl e) \<Rightarrow> Some (Inl e)
      | Some (Inr mg) \<Rightarrow> run cs mg)"

text \<open>Observations on an outcome.\<close>

definition selected_count :: "modstate \<Rightarrow> nat" where
  "selected_count g = length (filter selected (heap g))"

definition selected_id :: "modstate \<Rightarrow> nat option" where
  "selected_id g = (case deref g (nodeToSelect g) of Inl _ \<Rightarrow> None | Inr nd \<Rightarrow> Some (id_of nd))"

definition id_at :: "modstate \<Rightarrow> ref option \<Rightarrow> nat option" where
  "id_at g r = (case deref g r of Inl _ \<Rightarrow> None | Inr nd \<Rightarrow> Some (id_of nd))"

definition prev_at :: "modstate \<Rightarrow> ref option \<Rightarrow> ref option" where
  "prev_at g r = (case deref g r of Inl _ \<Rightarrow> None | Inr nd \<Rightarrow> prev_of nd)"

text \<open>What a scenario observes of an outcome: the ids of the nodes whose \<open>selected\<close> flag is
  set, the id of \<open>nodeToSelect\<close>, and the ids of \<open>leftEdge\<close> and \<open>rightEdge\<close>.\<close>

definition view ::
  "(error + menu \<times> modstate) option \<Rightarrow> (nat list \<times> nat option \<times> nat option \<times> nat option) option" where
  "view r = (case r of
       Some (Inr (m, g)) \<Rightarrow>
         Some (map id_of (filter selected (heap g)), selected_id g,
               id_at g (leftEdge g), id_at g (rightEdge g))
     | _ \<Rightarrow> None)"

text \<open>The properties object \<^verbatim>\<open>{ revolvingMenu: false }\<close>.\<close>

definition no_revolve :: properties where
  "no_revolve = \<lparr> p_gapBetweenItems = None, p_menuOffsetItems = None,
     p_revolvingMenu = Some False, p_openBehavior = None \<rparr>"

section \<open>Invariants used in the proofs\<close>

text \<open>In a ring of \<open>n\<close> nodes stored at the addresses \<open>0 .. n - 1\<close> in insertion order,
  the successor and the predecessor of the node at address \<open>k\<close>.\<close>

definition succ_ix :: "nat \<Rightarrow> nat \<Rightarrow> nat" where
  "succ_ix n k = (if Suc k = n then 0 else Suc k)"

definition pred_ix :: "nat \<Rightarrow> nat \<Rightarrow> nat" where
  "pred_ix n k = (if k = 0 then n - 1 else k - 1)"

text \<open>The store holds exactly the \<open>n\<close> nodes of one ring: node \<open>k\<close> has id \<open>k\<close>, and \<open>next\<close> and
  \<open>prev\<close> close the cycle; the first-inserted node is \<open>firstNode\<close>.\<close>

definition ring_links :: "nat \<Rightarrow> modstate \<Rightarrow> bool" where
  "ring_links n g \<longleftrightarrow> length (heap g) = n \<and> firstNode g = Some 0 \<and>
     (\<forall>k<n. id_of (heap g ! k) = k \<and> next_of (heap g ! k) = Some (succ_ix n k)
            \<and> prev_of (heap g ! k) = Some (pred_ix n k))"

text \<open>The node that the loop of \<open>moveToPrev\<close> visits in its \<open>i\<close>-th pass: 0, then
  \<open>n - 1\<close> down to 1.\<close>

definition prev_visit :: "nat \<Rightarrow> nat \<Rightarrow> nat" where
  "prev_visit n i = (if i = 0 then 0 else n - i)"

text \<open>The state of the loop of \<open>moveToNext\<close> before it visits node \<open>k\<close>, for a ring whose
  selected node is \<open>c\<close> and whose edges were \<open>l\<close> and \<open>r\<close> when the loop started.\<close>

definition nextInv :: "nat \<Rightarrow> nat \<Rightarrow> nat \<Rightarrow> nat \<Rightarrow> nat \<Rightarrow> modstate \<Rightarrow> bool" where
  "nextInv n c l r k s \<longleftrightarrow> ring_links n s \<and> nextNodeID s = n \<and> latestNode s = Some (n - 1)
     \<and> \<not> clicked s \<and> leftEdge s = Some l \<and> rightEdge s = Some (if l < k then l else r)
     \<and> nodeToSelect s = Some (if c < k then succ_ix n c else c)
     \<and> (\<forall>j<n. selected (heap s ! j) = (j = c \<and> k \<le> j))"

text \<open>The state between two commands: a ring of \<open>n\<close> nodes of which exactly \<open>c\<close> is
  selected, with \<open>leftEdge = l\<close> and \<open>rightEdge = r\<close>, no rotation in flight, on a menu
  whose tray lists the \<open>n\<close> nodes.\<close>

definition ring_state :: "nat \<Rightarrow> nat \<Rightarrow> ref option \<Rightarrow> nat \<Rightarrow> menu \<Rightarrow> modstate \<Rightarrow> bool" where
  "ring_state n c l r m g \<longleftrightarrow> ring_links n g \<and> nextNodeID g = n \<and> latestNode g = Some (n - 1)
     \<and> \<not> clicked g \<and> \<not> isMoving g \<and> c < n \<and> r < n \<and> nodeToSelect g = Some c
     \<and> (\<forall>j<n. selected (heap g ! j) = (j = c)) \<and> leftEdge g = l \<and> rightEdge g = Some r
     \<and> (case l of None \<Rightarrow> n = 1 | Some a \<Rightarrow> a < n \<and> 2 \<le> n)
     \<and> itemTray m = [0..<n] \<and> itemSelected m = c \<and> revolvingMenu m"

text \<open>Node \<open>x\<close> has been visited by the first \<open>i\<close> passes of the loop of \<open>moveToPrev\<close>.\<close>

definition prev_done :: "nat \<Rightarrow> nat \<Rightarrow> nat \<Rightarrow> bool" where
  "prev_done n i x \<longleftrightarrow> 0 < i \<and> (x = 0 \<or> n - i < x)"

text \<open>The state of the loop of \<open>moveToPrev\<close> after \<open>i\<close> passes.\<close>

definition prevInv :: "nat \<Rightarrow> nat \<Rightarrow> nat \<Rightarrow> nat \<Rightarrow> nat \<Rightarrow> modstate \<Rightarrow> bool" where
  "prevInv n c l r i s \<longleftrightarrow> ring_links n s \<and> nextNodeID s = n \<and> latestNode s = Some (n - 1)
     \<and> \<not> clicked s \<and> rightEdge s = Some r \<and> leftEdge s = Some (if prev_done n i r then r else l)
     \<and> nodeToSelect s = Some (if prev_done n i c then pred_ix n c else c)
     \<and> (\<forall>j<n. selected (heap s ! j) = (j = c \<and> \<not> prev_done n i c))"

text \<open>The multiple of the gap at which \<open>repositionNodes\<close> puts the node at traversal index
  \<open>j\<close> of \<open>N\<close>, and the index of the node it makes \<open>leftEdge\<close>.\<close>

definition slot :: "nat \<Rightarrow> nat \<Rightarrow> int" where
  "slot N j = (if j \<le> N div 2 then int j else int j - int N)"

definition left_ix :: "nat \<Rightarrow> nat" where
  "left_ix N = (if N = 2 then 1 else N div 2 + 1)"

text \<open>The state of the loop of \<open>repositionNodes\<close> before it visits node \<open>k\<close>: the running
  coordinate, the nodes placed so far and the edges found so far.\<close>

definition layout_inv ::
  "nat \<Rightarrow> vec3 \<Rightarrow> ref option \<Rightarrow> ref option \<Rightarrow> nat \<Rightarrow> vec3 \<times> modstate \<Rightarrow> bool" where
  "layout_inv N gap l0 r0 k ps \<longleftrightarrow>
     ring_links N (snd ps) \<and> nextNodeID (snd ps) = N \<and> latestNode (snd ps) = Some (N - 1)
     \<and> \<not> clicked (snd ps) \<and> \<not> isMoving (snd ps) \<and> nodeToSelect (snd ps) = Some 0
     \<and> (\<forall>j<N. selected (heap (snd ps) ! j) = (j = 0))
     \<and> fst ps = vscale (if k \<le> N div 2 then int k - 1 else int k - 1 - int N) gap
     \<and> (\<forall>j<k. position (heap (snd ps) ! j) = vscale (slot N j) gap)
     \<and> leftEdge (snd ps) = (if left_ix N < k then Some (left_ix N) else l0)
     \<and> rightEdge (snd ps) = (if N div 2 < k then Some (N div 2) else r0)"

text \<open>The state in which \<open>add\<close> calls \<open>repositionNodes\<close>: the new node is linked in, the
  first node is the selected one.\<close>

definition pre_layout :: "nat \<Rightarrow> ref option \<Rightarrow> ref option \<Rightarrow> modstate \<Rightarrow> bool" where
  "pre_layout N l0 r0 g \<longleftrightarrow> ring_links N g \<and> nextNodeID g = N \<and> latestNode g = Some (N - 1)
     \<and> \<not> clicked g \<and> \<not> isMoving g \<and> nodeToSelect g = Some 0
     \<and> (\<forall>j<N. selected (heap g ! j) = (j = 0)) \<and> leftEdge g = l0 \<and> rightEdge g = r0"

text \<open>The state after \<open>n\<close> calls of \<open>add\<close> on a fresh menu, and the menu object then.\<close>

definition laid_out :: "nat \<Rightarrow> menu \<Rightarrow> modstate \<Rightarrow> bool" where
  "laid_out n m g \<longleftrightarrow> ring_state n 0 (if n = 1 then None else Some (left_ix n)) (n div 2) m g
     \<and> (\<forall>j<n. position (heap g ! j) = vscale (slot n j) (gapBetweenItems m))"

definition menu_after :: "properties option \<Rightarrow> nat \<Rightarrow> menu \<Rightarrow> bool" where
  "menu_after props n m \<longleftrightarrow>
     m = (fst (Menu props module_init))\<lparr>itemTray := [0..<n], itemCount := n,
           groupPosition := vadd vzero (menuOffsetItems (fst (Menu props module_init)))\<rparr>"

text \<open>An outcome is a normal return in a state that satisfies \<open>P\<close>.\<close>

definition holds :: "(error + menu \<times> modstate) option \<Rightarrow> (menu \<Rightarrow> modstate \<Rightarrow> bool) \<Rightarrow> bool" where
  "holds r P = (case r of Some (Inr (m, g)) \<Rightarrow> P m g | _ \<Rightarrow> False)"




text \<open>The edges lie across the seam: \<open>rightEdge\<close> is set and is \<open>leftEdge.prev\<close>.\<close>

definition seam_ok :: "modstate \<Rightarrow> bool" where
  "seam_ok g \<longleftrightarrow> rightEdge g \<noteq> None \<and> rightEdge g = prev_at g (leftEdge g)"

text \<open>What a command does to the selected node and the edges of a ring of \<open>n\<close> nodes, on
  a menu that is open or not.\<close>

definition moved :: "command \<Rightarrow> bool \<Rightarrow> nat \<Rightarrow> nat \<times> ref option \<times> nat \<Rightarrow> nat \<times> ref option \<times> nat" where
  "moved cmd op n clr =
     (case clr of (c, l, r) \<Rightarrow>
        if cmd = Next \<and> op \<and> 2 \<le> n then (succ_ix n c, map_option (succ_ix n) l, the l)
        else if cmd = Prev \<and> op \<and> 2 \<le> n then (pred_ix n c, Some r, pred_ix n r)
        else (c, l, r))"

definition opened_after :: "command \<Rightarrow> bool \<Rightarrow> bool" where
  "opened_after cmd op = (case cmd of Open \<Rightarrow> True | Close \<Rightarrow> False | _ \<Rightarrow> op)"

text \<open>On a ring of two or more nodes the edges lie across the seam, or the ring has two
  nodes and is as \<open>repositionNodes\<close> left it (both edges on the second node).\<close>

definition edges_cond :: "nat \<Rightarrow> nat \<Rightarrow> ref option \<Rightarrow> nat \<Rightarrow> bool" where
  "edges_cond n c l r \<longleftrightarrow>
     (2 \<le> n \<longrightarrow> l = Some (succ_ix n r) \<or> (n = 2 \<and> c = 0 \<and> l = Some 1 \<and> r = 1))"

text \<open>Observations on the outcome of a command sequence.\<close>

definition seam_after :: "(error + menu \<times> modstate) option \<Rightarrow> bool" where
  "seam_after r = holds r (\<lambda>m g. seam_ok g)"

definition open_after :: "(error + menu \<times> modstate) option \<Rightarrow> bool" where
  "open_after r = holds r (\<lambda>m g. opened m)"

definition seam_view ::
  "(error + menu \<times> modstate) option \<Rightarrow> (ref option \<times> ref option \<times> ref option) option" where
  "seam_view r = (case r of
       Some (Inr (m, g)) \<Rightarrow> Some (leftEdge g, rightEdge g, prev_at g (leftEdge g))
     | _ \<Rightarrow> None)"

definition selection_view ::
  "(error + menu \<times> modstate) option \<Rightarrow> (ref option \<times> bool list \<times> ref option) option" where
  "selection_view r = (case r of
       Some (Inr (m, g)) \<Rightarrow> Some (nodeToSelect g, map selected (heap g), leftEdge g)
     | _ \<Rightarrow> None)"

definition right_view :: "(error + menu \<times> modstate) option \<Rightarrow> ref option option" where
  "right_view r = (case r of Some (Inr (m, g)) \<Rightarrow> Some (rightEdge g) | _ \<Rightarrow> None)"

definition count_view :: "(error + menu \<times> modstate) option \<Rightarrow> (bool \<times> nat) option" where
  "count_view r = (case r of
       Some (Inr (m, g)) \<Rightarrow> Some (opened m, selected_count g)
     | _ \<Rightarrow> None)"





text \<open>Observations on a click that follows a command sequence: the jump as a whole, the
  click being ignored (no rotation, no timer, nothing changed, no error), the jump ending
  on the target after at most \<open>bound\<close> rotations, and an outcome that is an error.\<close>

definition jump_after ::
  "(error + menu \<times> modstate) option \<Rightarrow> nat \<Rightarrow> (error + nat \<times> menu \<times> modstate) option" where
  "jump_after r tag = (case r of
       Some (Inr (m, g)) \<Rightarrow> jumpTo m g tag
     | Some (Inl e) \<Rightarrow> Some (Inl e)
     | None \<Rightarrow> None)"



definition raises :: "(error + 'a) option \<Rightarrow> bool" where
  "raises r = (case r of Some (Inl _) \<Rightarrow> True | _ \<Rightarrow> False)"

section \<open>The loops on a well-formed ring\<close>

lemma ring_links_deref: "ring_links n g \<Longrightarrow> k < n \<Longrightarrow> deref g (Some k) = Inr (heap g ! k)"
  by (simp add: ring_links_def deref_def)

lemma succ_ix_less: "k < n \<Longrightarrow> succ_ix n k < n"
  by (simp add: succ_ix_def)

lemma pred_ix_less: "k < n \<Longrightarrow> pred_ix n k < n"
  by (auto simp: pred_ix_def)

lemma ringDo_walk:
  assumes step: "\<And>i s. i < n \<Longrightarrow> J i s \<Longrightarrow> \<exists>s'. body (visit i) s = Inr s' \<and> J (Suc i) s'"
      and ring: "\<And>i s. i \<le> n \<Longrightarrow> J i s \<Longrightarrow> ring_links n (gs s)"
      and link: "\<And>g k. ring_links n g \<Longrightarrow> k < n \<Longrightarrow> step (heap g ! k) = Some (lnk k)"
      and vis: "\<And>i. i < n \<Longrightarrow> visit i < n"
      and vnext: "\<And>i. Suc i < n \<Longrightarrow> lnk (visit i) = visit (Suc i) \<and> visit (Suc i) \<noteq> 0"
      and vlast: "\<And>i. Suc i = n \<Longrightarrow> lnk (visit i) = 0"
      and start: "J i s" "i < n"
  shows "\<exists>s'. ringDo gs step body (Some (visit i)) s = Some (Inr s') \<and> J n s'"
  using start
proof (induction "n - i" arbitrary: i s)
  case 0
  then show ?case by simp
next
  case (Suc d)
  let ?k = "visit i"
  have kn: "?k < n" using vis[OF Suc.prems(2)] .
  from step[OF Suc.prems(2) Suc.prems(1)] obtain s1 where b: "body ?k s = Inr s1" and j1: "J (Suc i) s1"
    by blast
  have r1: "ring_links n (gs s1)" using ring[of "Suc i" s1] j1 Suc.prems(2) by simp
  have n0: "0 < n" using Suc.prems(2) by simp
  have ln: "lnk ?k < n"
  proof (cases "Suc i = n")
    case True then show ?thesis using vlast[of i] n0 by simp
  next
    case False
    then have "Suc i < n" using Suc.prems(2) by simp
    then show ?thesis using vnext[of i] vis[of "Suc i"] by simp
  qed
  have dk: "deref (gs s1) (Some ?k) = Inr (heap (gs s1) ! ?k)"
    using ring_links_deref[OF r1 kn] .
  have nk: "step (heap (gs s1) ! ?k) = Some (lnk ?k)"
    using link[OF r1 kn] .
  have dn: "deref (gs s1) (Some (lnk ?k)) = Inr (heap (gs s1) ! lnk ?k)"
    using ring_links_deref[OF r1 ln] .
  have idn: "id_of (heap (gs s1) ! lnk ?k) = lnk ?k"
    using r1 ln by (simp add: ring_links_def)
  have df: "deref (gs s1) (firstNode (gs s1)) = Inr (heap (gs s1) ! 0)"
    using r1 ring_links_deref[OF r1 n0] by (simp add: ring_links_def)
  have id0: "id_of (heap (gs s1) ! 0) = 0"
    using r1 n0 by (simp add: ring_links_def)
  have unf: "ringDo gs step body (Some ?k) s =
       (if lnk ?k \<noteq> 0 then ringDo gs step body (Some (lnk ?k)) s1 else Some (Inr s1))"
    by (subst ringDo.simps) (simp add: b dk nk dn idn df id0)
  show ?case
  proof (cases "Suc i = n")
    case True
    then show ?thesis using unf j1 vlast[of i] by auto
  next
    case False
    then have lt: "Suc i < n" using Suc.prems(2) by simp
    have "d = n - Suc i" using Suc.hyps(2) by simp
    from Suc.hyps(1)[OF this j1 lt] show ?thesis
      using unf vnext[OF lt] by simp
  qed
qed

lemma ringDo_next:
  assumes step: "\<And>k s. k < n \<Longrightarrow> J k s \<Longrightarrow> \<exists>s'. body k s = Inr s' \<and> J (Suc k) s'"
      and ring: "\<And>k s. k \<le> n \<Longrightarrow> J k s \<Longrightarrow> ring_links n (gs s)"
      and start: "J 0 s" "0 < n"
  shows "\<exists>s'. ringDo gs next_of body (Some 0) s = Some (Inr s') \<and> J n s'"
proof (rule ringDo_walk[where visit="\<lambda>i. i" and lnk="succ_ix n" and J=J and n=n and i=0])
  show "\<And>i s. i < n \<Longrightarrow> J i s \<Longrightarrow> \<exists>s'. body i s = Inr s' \<and> J (Suc i) s'" by (rule step)
  show "\<And>i s. i \<le> n \<Longrightarrow> J i s \<Longrightarrow> ring_links n (gs s)" by (rule ring)
  show "\<And>g k. ring_links n g \<Longrightarrow> k < n \<Longrightarrow> next_of (heap g ! k) = Some (succ_ix n k)"
    by (simp add: ring_links_def)
  show "\<And>i. i < n \<Longrightarrow> i < n" .
  show "\<And>i. Suc i < n \<Longrightarrow> succ_ix n i = Suc i \<and> Suc i \<noteq> 0" by (simp add: succ_ix_def)
  show "\<And>i. Suc i = n \<Longrightarrow> succ_ix n i = 0" by (simp add: succ_ix_def)
  show "J 0 s" by fact
  show "0 < n" by fact
qed

lemma ringDo_prev:
  assumes step: "\<And>i s. i < n \<Longrightarrow> J i s \<Longrightarrow> \<exists>s'. body (prev_visit n i) s = Inr s' \<and> J (Suc i) s'"
      and ring: "\<And>k s. k \<le> n \<Longrightarrow> J k s \<Longrightarrow> ring_links n (gs s)"
      and start: "J 0 s" "0 < n"
  shows "\<exists>s'. ringDo gs prev_of body (Some 0) s = Some (Inr s') \<and> J n s'"
proof -
  have "\<exists>s'. ringDo gs prev_of body (Some (prev_visit n 0)) s = Some (Inr s') \<and> J n s'"
  proof (rule ringDo_walk[where visit="prev_visit n" and lnk="pred_ix n" and J=J and n=n and i=0])
    show "\<And>i s. i < n \<Longrightarrow> J i s \<Longrightarrow> \<exists>s'. body (prev_visit n i) s = Inr s' \<and> J (Suc i) s'" by (rule step)
    show "\<And>i s. i \<le> n \<Longrightarrow> J i s \<Longrightarrow> ring_links n (gs s)" by (rule ring)
    show "\<And>g k. ring_links n g \<Longrightarrow> k < n \<Longrightarrow> prev_of (heap g ! k) = Some (pred_ix n k)"
      by (simp add: ring_links_def)
    show "\<And>i. i < n \<Longrightarrow> prev_visit n i < n" by (simp add: prev_visit_def)
    show "\<And>i. Suc i < n \<Longrightarrow> pred_ix n (prev_visit n i) = prev_visit n (Suc i) \<and> prev_visit n (Suc i) \<noteq> 0"
      by (auto simp: prev_visit_def pred_ix_def)
    show "\<And>i. Suc i = n \<Longrightarrow> pred_ix n (prev_visit n i) = 0"
      by (auto simp: prev_visit_def pred_ix_def)
    show "J 0 s" by fact
    show "0 < n" by fact
  qed
  then show ?thesis by (simp add: prev_visit_def)
qed

lemma ring_links_assign: "ring_links n g \<Longrightarrow> k < n \<Longrightarrow> assign (Some k) f g = Inr (upd_node k f g)"
  by (simp add: ring_links_def assign_def)

lemma ring_links_links:
  "ring_links n g \<Longrightarrow> k < n \<Longrightarrow> id_of (heap g ! k) = k"
  "ring_links n g \<Longrightarrow> k < n \<Longrightarrow> next_of (heap g ! k) = Some (succ_ix n k)"
  "ring_links n g \<Longrightarrow> k < n \<Longrightarrow> prev_of (heap g ! k) = Some (pred_ix n k)"
  "ring_links n g \<Longrightarrow> length (heap g) = n"
  "ring_links n g \<Longrightarrow> firstNode g = Some 0"
  by (simp_all add: ring_links_def)

lemma upd_node_fields [simp]:
  "heap (upd_node a f g) = (heap g)[a := f (heap g ! a)]"
  "firstNode (upd_node a f g) = firstNode g"
  "latestNode (upd_node a f g) = latestNode g"
  "nodeToSelect (upd_node a f g) = nodeToSelect g"
  "leftEdge (upd_node a f g) = leftEdge g"
  "rightEdge (upd_node a f g) = rightEdge g"
  "nextNodeID (upd_node a f g) = nextNodeID g"
  "clicked (upd_node a f g) = clicked g"
  "isMoving (upd_node a f g) = isMoving g"
  "keyPressed (upd_node a f g) = keyPressed g"
  "motions (upd_node a f g) = motions g"
  by (simp_all add: upd_node_def)

lemma request_fields [simp]:
  "heap (request q g) = heap g"
  "firstNode (request q g) = firstNode g"
  "latestNode (request q g) = latestNode g"
  "nodeToSelect (request q g) = nodeToSelect g"
  "leftEdge (request q g) = leftEdge g"
  "rightEdge (request q g) = rightEdge g"
  "nextNodeID (request q g) = nextNodeID g"
  "clicked (request q g) = clicked g"
  "isMoving (request q g) = isMoving g"
  "keyPressed (request q g) = keyPressed g"
  "motions (request q g) = motions g @ [q]"
  by (simp_all add: request_def)

lemma ring_links_cong: "heap g' = heap g \<Longrightarrow> firstNode g' = firstNode g \<Longrightarrow> ring_links n g' = ring_links n g"
  by (simp add: ring_links_def)

lemma ring_links_field_upd [simp]:
  "ring_links n (g\<lparr>rightEdge := x\<rparr>) = ring_links n g"
  "ring_links n (g\<lparr>leftEdge := x\<rparr>) = ring_links n g"
  "ring_links n (g\<lparr>nodeToSelect := x\<rparr>) = ring_links n g"
  "ring_links n (g\<lparr>isMoving := b\<rparr>) = ring_links n g"
  "ring_links n (g\<lparr>keyPressed := b\<rparr>) = ring_links n g"
  "ring_links n (g\<lparr>latestNode := x\<rparr>) = ring_links n g"
  "ring_links n (g\<lparr>nextNodeID := k\<rparr>) = ring_links n g"
  "ring_links n (request q g) = ring_links n g"
  by (simp_all add: ring_links_def)

lemma ring_links_upd_node:
  assumes "ring_links n g"
    and "id_of (f (heap g ! a)) = id_of (heap g ! a)"
    and "next_of (f (heap g ! a)) = next_of (heap g ! a)"
    and "prev_of (f (heap g ! a)) = prev_of (heap g ! a)"
  shows "ring_links n (upd_node a f g)"
  using assms by (cases "a < n") (auto simp: ring_links_def nth_list_update)

lemma nextStep_edge:
  assumes rs: "ring_links n s" and le: "leftEdge s = Some l" and l: "l < n" and k: "k < n"
  shows "\<exists>g1. (if Some k = leftEdge s
            then sbind (deref s (leftEdge s)) (\<lambda>le.
                 sbind (deref s (prev_of le)) (\<lambda>p.
                 sbind (assign (leftEdge s)
                          (\<lambda>n. n\<lparr>position := vadd (position p) gap\<rparr>) s) (\<lambda>g'.
                 Inr (g'\<lparr>rightEdge := leftEdge g'\<rparr>))))
            else Inr s) = Inr g1
        \<and> ring_links n g1 \<and> nextNodeID g1 = nextNodeID s \<and> latestNode g1 = latestNode s
        \<and> clicked g1 = clicked s \<and> leftEdge g1 = Some l
        \<and> rightEdge g1 = (if k = l then Some l else rightEdge s)
        \<and> nodeToSelect g1 = nodeToSelect s
        \<and> (\<forall>j<n. selected (heap g1 ! j) = selected (heap s ! j))"
proof (cases "k = l")
  case False
  then show ?thesis using rs le by simp
next
  case True
  have pl: "pred_ix n l < n" using l by (rule pred_ix_less)
  show ?thesis
    using True rs le l pl
    by (simp add: sbind_def ring_links_deref ring_links_assign ring_links_links ring_links_upd_node nth_list_update)
qed

lemma nextStep:
  assumes inv: "nextInv n c l r k s" and k: "k < n" and l: "l < n" and c: "c < n"
  shows "\<exists>s'. moveToNextStep m k s = Inr s' \<and> nextInv n c l r (Suc k) s'"
proof -
  from inv have rs: "ring_links n s" and le: "leftEdge s = Some l" by (simp_all add: nextInv_def)
  from nextStep_edge[OF rs le l k, of "gapBetweenItems m"] obtain g1 where
    e: "(if Some k = leftEdge s
            then sbind (deref s (leftEdge s)) (\<lambda>le.
                 sbind (deref s (prev_of le)) (\<lambda>p.
                 sbind (assign (leftEdge s)
                          (\<lambda>n. n\<lparr>position := vadd (position p) (gapBetweenItems m)\<rparr>) s) (\<lambda>g'.
                 Inr (g'\<lparr>rightEdge := leftEdge g'\<rparr>))))
            else Inr s) = Inr g1"
    and g1: "ring_links n g1" "nextNodeID g1 = nextNodeID s" "latestNode g1 = latestNode s"
        "clicked g1 = clicked s" "leftEdge g1 = Some l"
        "rightEdge g1 = (if k = l then Some l else rightEdge s)"
        "nodeToSelect g1 = nodeToSelect s"
        "\<forall>j<n. selected (heap g1 ! j) = selected (heap s ! j)"
    by blast
  have unf: "moveToNextStep m k s =
      (let g2 = request (MoveTo k (vsub (position (heap g1 ! k)) (gapBetweenItems m))) g1
       in if selected (heap g1 ! k)
          then Inr (upd_node k (\<lambda>n. n\<lparr>selected := False\<rparr>) (g2\<lparr>nodeToSelect := next_of (heap g1 ! k)\<rparr>))
          else Inr g2)"
    unfolding moveToNextStep_def e by (simp add: sbind_def ring_links_deref[OF g1(1) k])
  show ?thesis
  proof (cases "k = c")
    case True
    then show ?thesis
      using inv g1 k l c unfolding unf nextInv_def
      by (auto simp: Let_def ring_links_links ring_links_upd_node nth_list_update)
  next
    case False
    then show ?thesis
      using inv g1 k l c unfolding unf nextInv_def
      by (auto simp: Let_def)
  qed
qed

lemma moveToNext_ring_state:
  assumes rs: "ring_state n c (Some l) r m g" and op: "opened m"
  shows "\<exists>g'. moveToNext m g = Some (Inr (m\<lparr>itemSelected := succ_ix n c\<rparr>, g'))
          \<and> ring_state n (succ_ix n c) (Some (succ_ix n l)) l (m\<lparr>itemSelected := succ_ix n c\<rparr>) g'"
proof -
  from rs have l: "l < n" and c: "c < n" and n2: "2 \<le> n" by (simp_all add: ring_state_def)
  have nb: "\<not> nextBlocked m g" using rs op by (simp add: ring_state_def nextBlocked_def)
  have j0: "nextInv n c l r 0 (g\<lparr>isMoving := True\<rparr>)"
    using rs by (simp add: ring_state_def nextInv_def)
  have "\<exists>s'. ringDo (\<lambda>s. s) next_of (moveToNextStep m) (Some 0) (g\<lparr>isMoving := True\<rparr>) = Some (Inr s')
          \<and> nextInv n c l r n s'"
  proof (rule ringDo_next[where J="nextInv n c l r"])
    show "\<And>k s. k < n \<Longrightarrow> nextInv n c l r k s \<Longrightarrow>
            \<exists>s'. moveToNextStep m k s = Inr s' \<and> nextInv n c l r (Suc k) s'"
      using nextStep l c by blast
    show "\<And>k s. k \<le> n \<Longrightarrow> nextInv n c l r k s \<Longrightarrow> ring_links n s" by (simp add: nextInv_def)
    show "nextInv n c l r 0 (g\<lparr>isMoving := True\<rparr>)" by (rule j0)
    show "0 < n" using n2 by simp
  qed
  then obtain g1 where loop: "ringDo (\<lambda>s. s) next_of (moveToNextStep m) (Some 0) (g\<lparr>isMoving := True\<rparr>) = Some (Inr g1)"
    and j: "nextInv n c l r n g1" by blast
  have fn: "firstNode g = Some 0" using rs by (simp add: ring_state_def ring_links_def)
  from j have r1: "ring_links n g1" and le1: "leftEdge g1 = Some l" and re1: "rightEdge g1 = Some l"
    and ns1: "nodeToSelect g1 = Some (succ_ix n c)" and sel1: "\<forall>j<n. \<not> selected (heap g1 ! j)"
    and fr: "nextNodeID g1 = n" "latestNode g1 = Some (n - 1)" "\<not> clicked g1"
    using l c by (auto simp: nextInv_def)
  have sc: "succ_ix n c < n" and sl: "succ_ix n l < n" using c l by (simp_all add: succ_ix_less)
  define g3 where "g3 = upd_node (succ_ix n c) (\<lambda>nd. nd\<lparr>selected := True\<rparr>) (g1\<lparr>leftEdge := Some (succ_ix n l)\<rparr>)"
  have r3: "ring_links n g3" unfolding g3_def using r1 by (simp add: ring_links_upd_node)
  have res: "moveToNext m g = Some (Inr (m\<lparr>itemSelected := succ_ix n c\<rparr>, g3\<lparr>isMoving := False\<rparr>))"
    unfolding moveToNext_def using nb
    by (simp add: fn loop sbind_def le1 ns1 ring_links_deref[OF r1 l] ring_links_links(1-3)[OF r1 l] Let_def
          ring_links_assign[OF _ sc] r1 g3_def[symmetric] ring_links_deref[OF r3 sc] ring_links_links(1-3)[OF r3 sc])
  have "ring_state n (succ_ix n c) (Some (succ_ix n l)) l (m\<lparr>itemSelected := succ_ix n c\<rparr>) (g3\<lparr>isMoving := False\<rparr>)"
    using rs r3 sc sl l n2 fr re1 ns1 sel1 r1
    by (auto simp: ring_state_def g3_def nth_list_update ring_links_links)
  with res show ?thesis by blast
qed

lemma prev_done_Suc: "i < n \<Longrightarrow> x < n \<Longrightarrow> prev_done n (Suc i) x = (prev_done n i x \<or> x = prev_visit n i)"
  by (auto simp: prev_done_def prev_visit_def)

lemma prev_done_visit: "i < n \<Longrightarrow> \<not> prev_done n i (prev_visit n i)"
  by (auto simp: prev_done_def prev_visit_def)

lemma prev_done_all: "x < n \<Longrightarrow> prev_done n n x" "\<not> prev_done n 0 x"
  by (auto simp: prev_done_def)

lemma prevStep_edge:
  assumes rs: "ring_links n s" and re: "rightEdge s = Some r" and r: "r < n" and k: "k < n"
  shows "\<exists>g1. (if Some k = rightEdge s
            then sbind (deref s (rightEdge s)) (\<lambda>re.
                 sbind (deref s (next_of re)) (\<lambda>nx.
                 sbind (assign (rightEdge s)
                          (\<lambda>n. n\<lparr>position := vsub (position nx) gap\<rparr>) s) (\<lambda>g'.
                 Inr (g'\<lparr>leftEdge := rightEdge g'\<rparr>))))
            else Inr s) = Inr g1
        \<and> ring_links n g1 \<and> nextNodeID g1 = nextNodeID s \<and> latestNode g1 = latestNode s
        \<and> clicked g1 = clicked s \<and> rightEdge g1 = Some r
        \<and> leftEdge g1 = (if k = r then Some r else leftEdge s)
        \<and> nodeToSelect g1 = nodeToSelect s
        \<and> (\<forall>j<n. selected (heap g1 ! j) = selected (heap s ! j))"
proof (cases "k = r")
  case False
  then show ?thesis using rs re by simp
next
  case True
  have pl: "succ_ix n r < n" using r by (rule succ_ix_less)
  show ?thesis
    using True rs re r pl
    by (simp add: sbind_def ring_links_deref ring_links_assign ring_links_links ring_links_upd_node nth_list_update)
qed

lemma prevStep:
  assumes inv: "prevInv n c l r i s" and i: "i < n" and r: "r < n" and c: "c < n"
  shows "\<exists>s'. moveToPrevStep m (prev_visit n i) s = Inr s' \<and> prevInv n c l r (Suc i) s'"
proof -
  let ?k = "prev_visit n i"
  have k: "?k < n" using i by (simp add: prev_visit_def)
  from inv have rs: "ring_links n s" and re: "rightEdge s = Some r" by (simp_all add: prevInv_def)
  from prevStep_edge[OF rs re r k, of "gapBetweenItems m"] obtain g1 where
    e: "(if Some ?k = rightEdge s
            then sbind (deref s (rightEdge s)) (\<lambda>re.
                 sbind (deref s (next_of re)) (\<lambda>nx.
                 sbind (assign (rightEdge s)
                          (\<lambda>n. n\<lparr>position := vsub (position nx) (gapBetweenItems m)\<rparr>) s) (\<lambda>g'.
                 Inr (g'\<lparr>leftEdge := rightEdge g'\<rparr>))))
            else Inr s) = Inr g1"
    and g1: "ring_links n g1" "nextNodeID g1 = nextNodeID s" "latestNode g1 = latestNode s"
        "clicked g1 = clicked s" "rightEdge g1 = Some r"
        "leftEdge g1 = (if ?k = r then Some r else leftEdge s)"
        "nodeToSelect g1 = nodeToSelect s"
        "\<forall>j<n. selected (heap g1 ! j) = selected (heap s ! j)"
    by blast
  have unf: "moveToPrevStep m ?k s =
      (let g2 = request (MoveTo ?k (vadd (position (heap g1 ! ?k)) (gapBetweenItems m))) g1
       in if selected (heap g1 ! ?k)
          then Inr (upd_node ?k (\<lambda>n. n\<lparr>selected := False\<rparr>) (g2\<lparr>nodeToSelect := prev_of (heap g1 ! ?k)\<rparr>))
          else Inr g2)"
    unfolding moveToPrevStep_def e by (simp add: sbind_def ring_links_deref[OF g1(1) k])
  note ds = prev_done_Suc[OF i c] prev_done_Suc[OF i r] prev_done_visit[OF i]
  show ?thesis
  proof (cases "?k = c")
    case True
    then show ?thesis
      using inv g1 k r c ds unfolding unf prevInv_def
      by (auto simp: Let_def ring_links_links ring_links_upd_node nth_list_update)
  next
    case False
    then show ?thesis
      using inv g1 k r c ds unfolding unf prevInv_def
      by (auto simp: Let_def)
  qed
qed

lemma moveToPrev_ring_state:
  assumes rs: "ring_state n c (Some l) r m g" and op: "opened m"
  shows "\<exists>g'. moveToPrev m g = Some (Inr (m\<lparr>itemSelected := pred_ix n c\<rparr>, g'))
          \<and> ring_state n (pred_ix n c) (Some r) (pred_ix n r) (m\<lparr>itemSelected := pred_ix n c\<rparr>) g'"
proof -
  from rs have l: "l < n" and c: "c < n" and r: "r < n" and n2: "2 \<le> n" by (simp_all add: ring_state_def)
  have nb: "\<not> prevBlocked m g" using rs op by (simp add: ring_state_def prevBlocked_def)
  have j0: "prevInv n c l r 0 (g\<lparr>isMoving := True\<rparr>)"
    using rs by (simp add: ring_state_def prevInv_def prev_done_all)
  have "\<exists>s'. ringDo (\<lambda>s. s) prev_of (moveToPrevStep m) (Some 0) (g\<lparr>isMoving := True\<rparr>) = Some (Inr s')
          \<and> prevInv n c l r n s'"
  proof (rule ringDo_prev[where J="prevInv n c l r"])
    show "\<And>i s. i < n \<Longrightarrow> prevInv n c l r i s \<Longrightarrow>
            \<exists>s'. moveToPrevStep m (prev_visit n i) s = Inr s' \<and> prevInv n c l r (Suc i) s'"
      using prevStep r c by blast
    show "\<And>k s. k \<le> n \<Longrightarrow> prevInv n c l r k s \<Longrightarrow> ring_links n s" by (simp add: prevInv_def)
    show "prevInv n c l r 0 (g\<lparr>isMoving := True\<rparr>)" by (rule j0)
    show "0 < n" using n2 by simp
  qed
  then obtain g1 where loop: "ringDo (\<lambda>s. s) prev_of (moveToPrevStep m) (Some 0) (g\<lparr>isMoving := True\<rparr>) = Some (Inr g1)"
    and j: "prevInv n c l r n g1" by blast
  have fn: "firstNode g = Some 0" using rs by (simp add: ring_state_def ring_links_def)
  from j have r1: "ring_links n g1" and le1: "leftEdge g1 = Some r" and re1: "rightEdge g1 = Some r"
    and ns1: "nodeToSelect g1 = Some (pred_ix n c)" and sel1: "\<forall>j<n. \<not> selected (heap g1 ! j)"
    and fr: "nextNodeID g1 = n" "latestNode g1 = Some (n - 1)" "\<not> clicked g1"
    using r c by (auto simp: prevInv_def prev_done_all)
  have sc: "pred_ix n c < n" and sl: "pred_ix n r < n" using c r by (simp_all add: pred_ix_less)
  define g3 where "g3 = upd_node (pred_ix n c) (\<lambda>nd. nd\<lparr>selected := True\<rparr>) (g1\<lparr>rightEdge := Some (pred_ix n r)\<rparr>)"
  have r3: "ring_links n g3" unfolding g3_def using r1 by (simp add: ring_links_upd_node)
  have res: "moveToPrev m g = Some (Inr (m\<lparr>itemSelected := pred_ix n c\<rparr>, g3\<lparr>isMoving := False\<rparr>))"
    unfolding moveToPrev_def using nb
    by (simp add: fn loop sbind_def re1 ns1 ring_links_deref[OF r1 r] ring_links_links(1-3)[OF r1 r] Let_def
          ring_links_assign[OF _ sc] r1 g3_def[symmetric] ring_links_deref[OF r3 sc] ring_links_links(1-3)[OF r3 sc])
  have "ring_state n (pred_ix n c) (Some r) (pred_ix n r) (m\<lparr>itemSelected := pred_ix n c\<rparr>) (g3\<lparr>isMoving := False\<rparr>)"
    using rs r3 sc sl r n2 fr le1 ns1 sel1 r1
    by (auto simp: ring_state_def g3_def nth_list_update ring_links_links)
  with res show ?thesis by blast
qed

lemma vec_arith:
  "vadd (vscale a g) g = vscale (a + 1) g"
  "vneg (vadd (vscale a g) (vscale b g)) = vscale (- (a + b)) g"
  "vsub vzero g = vscale (- 1) g"
  "vscale 0 g = vzero"
  by (simp_all add: vadd_def vscale_def vneg_def vsub_def vzero_def algebra_simps)

lemma nth_list_update': "xs[i := x] ! j = (if i = j \<and> i < length xs then x else xs ! j)"
  by (cases "i < length xs") (auto simp: nth_list_update list_update_beyond)

lemma layStep:
  assumes inv: "layout_inv N (gapBetweenItems m) l0 r0 k ps" and k: "k < N"
  shows "\<exists>ps'. repositionStep m (N div 2) (N mod 2 = 0) k ps = Inr ps'
            \<and> layout_inv N (gapBetweenItems m) l0 r0 (Suc k) ps'"
proof -
  obtain pos s where ps: "ps = (pos, s)" by (cases ps)
  let ?gap = "gapBetweenItems m"
  let ?pos1 = "vscale (slot N k) ?gap"
  from inv have rs: "ring_links N s" and nid: "nextNodeID s = N"
    and pos: "pos = vscale (if k \<le> N div 2 then int k - 1 else int k - 1 - int N) ?gap"
    by (simp_all add: layout_inv_def ps)
  have p1: "vadd pos ?gap = ?pos1"
    unfolding pos by (simp add: vec_arith slot_def)
  define g1 where "g1 = upd_node k (\<lambda>nd. nd\<lparr>position := vadd pos ?gap\<rparr>) s"
  have r1: "ring_links N g1" unfolding g1_def using rs by (simp add: ring_links_upd_node)
  have dk: "deref g1 (Some k) = Inr (heap g1 ! k)" using ring_links_deref[OF r1 k] .
  have hk: "position (heap g1 ! k) = ?pos1"
    using rs k by (simp add: g1_def ring_links_links p1)
  have idk: "id_of (heap g1 ! k) = k" using ring_links_links(1)[OF r1 k] .
  have nid1: "nextNodeID g1 = N" using nid by (simp add: g1_def)
  have lcond: "((nextNodeID g1 = 2 \<and> id_of (heap g1 ! k) = 1) \<or> id_of (heap g1 ! k) = N div 2 + 1)
                 = (k = left_ix N)"
    unfolding idk nid1 using k by (auto simp: left_ix_def)
  define g2 where "g2 = (if (nextNodeID g1 = 2 \<and> id_of (heap g1 ! k) = 1) \<or> id_of (heap g1 ! k) = N div 2 + 1
                     then g1\<lparr>leftEdge := Some k\<rparr> else g1)"
  define g3 where "g3 = (if id_of (heap g1 ! k) = N div 2 then g2\<lparr>rightEdge := Some k\<rparr> else g2)"
  define g4 where "g4 = (if openBehavior m = OPEN_GROW then request (ScaleSet k) g3 else g3)"
  define pos' where "pos' = (if id_of (heap g1 ! k) = N div 2
       then vneg (vadd (position (heap g1 ! k)) (vscale (if N mod 2 = 0 then 0 else 1) ?gap))
       else vadd pos ?gap)"
  have unf: "repositionStep m (N div 2) (N mod 2 = 0) k ps = Inr (pos', g4)"
    unfolding repositionStep_def ps fst_conv snd_conv Let_def g1_def[symmetric] dk sbind_def
      sum.case g2_def[symmetric] g3_def[symmetric] g4_def[symmetric] pos'_def[symmetric]
    by (rule refl)
  have f2: "heap g2 = heap g1" "firstNode g2 = firstNode g1" "nextNodeID g2 = nextNodeID g1"
    "latestNode g2 = latestNode g1" "clicked g2 = clicked g1" "isMoving g2 = isMoving g1"
    "nodeToSelect g2 = nodeToSelect g1" "rightEdge g2 = rightEdge g1"
    "leftEdge g2 = (if k = left_ix N then Some k else leftEdge g1)"
    unfolding g2_def lcond by simp_all
  have f3: "heap g3 = heap g2" "firstNode g3 = firstNode g2" "nextNodeID g3 = nextNodeID g2"
    "latestNode g3 = latestNode g2" "clicked g3 = clicked g2" "isMoving g3 = isMoving g2"
    "nodeToSelect g3 = nodeToSelect g2" "leftEdge g3 = leftEdge g2"
    "rightEdge g3 = (if k = N div 2 then Some k else rightEdge g2)"
    unfolding g3_def idk by simp_all
  have f4: "heap g4 = heap g3" "firstNode g4 = firstNode g3" "nextNodeID g4 = nextNodeID g3"
    "latestNode g4 = latestNode g3" "clicked g4 = clicked g3" "isMoving g4 = isMoving g3"
    "nodeToSelect g4 = nodeToSelect g3" "leftEdge g4 = leftEdge g3"
    "rightEdge g4 = rightEdge g3"
    unfolding g4_def by simp_all
  have f1: "firstNode g1 = firstNode s" "nextNodeID g1 = nextNodeID s"
    "latestNode g1 = latestNode s" "clicked g1 = clicked s" "isMoving g1 = isMoving s"
    "nodeToSelect g1 = nodeToSelect s" "leftEdge g1 = leftEdge s" "rightEdge g1 = rightEdge s"
    unfolding g1_def by simp_all
  have r4: "ring_links N g4" using r1 ring_links_cong[of g4 g1 N] by (simp add: f4 f3 f2)
  have h1: "\<And>j. j < N \<Longrightarrow> selected (heap g1 ! j) = selected (heap s ! j)"
    by (simp add: g1_def nth_list_update')
  have h2: "\<And>j. j < N \<Longrightarrow> position (heap g1 ! j) = (if j = k then ?pos1 else position (heap s ! j))"
    using rs k by (simp add: g1_def nth_list_update ring_links_links p1)
  have pm: "vneg (vadd ?pos1 (vscale (if N mod 2 = 0 then 0 else 1) ?gap))
        = vscale (int k - int N) ?gap" if km: "k = N div 2"
  proof -
    have "int N = 2 * int k + (if N mod 2 = 0 then 0 else 1)"
      unfolding km by (cases "N mod 2 = 0") presburger+
    then have "- (slot N k + (if N mod 2 = 0 then 0 else 1)) = int k - int N"
      using km by (simp add: slot_def)
    then show ?thesis by (simp only: vec_arith(2))
  qed
  have c1: "pos' = vscale (if Suc k \<le> N div 2 then int (Suc k) - 1 else int (Suc k) - 1 - int N) ?gap"
  proof (cases "k = N div 2")
    case True
    have "pos' = vscale (int k - int N) ?gap"
      unfolding pos'_def idk hk using True pm by simp
    then show ?thesis using True by simp
  next
    case False
    have "pos' = ?pos1" unfolding pos'_def idk p1 using False by simp
    then show ?thesis using False by (auto simp: slot_def)
  qed
  have c2: "\<forall>j<Suc k. position (heap g4 ! j) = vscale (slot N j) ?gap"
    using inv k by (auto simp: f4 f3 f2 h2 layout_inv_def ps less_Suc_eq)
  have c3: "leftEdge g4 = (if left_ix N < Suc k then Some (left_ix N) else l0)"
    using inv by (auto simp: f4 f3 f2 f1 layout_inv_def ps)
  have c4: "rightEdge g4 = (if N div 2 < Suc k then Some (N div 2) else r0)"
    using inv by (auto simp: f4 f3 f2 f1 layout_inv_def ps)
  have c5: "\<forall>j<N. selected (heap g4 ! j) = (j = 0)"
    using inv by (simp add: f4 f3 f2 h1 layout_inv_def ps)
  have c6: "nextNodeID g4 = N" "latestNode g4 = Some (N - 1)" "\<not> clicked g4" "\<not> isMoving g4"
    "nodeToSelect g4 = Some 0"
    using inv by (simp_all add: f4 f3 f2 f1 layout_inv_def ps)
  have "layout_inv N ?gap l0 r0 (Suc k) (pos', g4)"
    unfolding layout_inv_def fst_conv snd_conv using r4 c1 c2 c3 c4 c5 c6 by blast
  with unf show ?thesis by blast
qed

lemma repositionNodes_pre_layout:
  assumes pl: "pre_layout N l0 r0 g" and n: "0 < N"
  shows "\<exists>pos' g'. repositionNodes m g =
            Some (Inr (pos', m\<lparr>groupPosition := vadd vzero (menuOffsetItems m)\<rparr>, g'))
          \<and> pre_layout N (if left_ix N < N then Some (left_ix N) else l0) (Some (N div 2)) g'
          \<and> (\<forall>j<N. position (heap g' ! j) = vscale (slot N j) (gapBetweenItems m))"
proof -
  let ?m1 = "m\<lparr>groupPosition := vzero\<rparr>"
  let ?gap = "gapBetweenItems m"
  have j0: "layout_inv N (gapBetweenItems ?m1) l0 r0 0 (vsub vzero ?gap, g)"
    using pl by (simp add: pre_layout_def layout_inv_def vec_arith)
  have "\<exists>ps'. ringDo snd next_of (repositionStep ?m1 (N div 2) (N mod 2 = 0)) (Some 0)
           (vsub vzero ?gap, g) = Some (Inr ps') \<and> layout_inv N (gapBetweenItems ?m1) l0 r0 N ps'"
  proof (rule ringDo_next[where J="layout_inv N (gapBetweenItems ?m1) l0 r0"])
    show "\<And>k s. k < N \<Longrightarrow> layout_inv N (gapBetweenItems ?m1) l0 r0 k s \<Longrightarrow>
       \<exists>s'. repositionStep ?m1 (N div 2) (N mod 2 = 0) k s = Inr s'
          \<and> layout_inv N (gapBetweenItems ?m1) l0 r0 (Suc k) s'"
      using layStep by blast
    show "\<And>k s. k \<le> N \<Longrightarrow> layout_inv N (gapBetweenItems ?m1) l0 r0 k s \<Longrightarrow> ring_links N (snd s)"
      by (simp add: layout_inv_def)
    show "layout_inv N (gapBetweenItems ?m1) l0 r0 0 (vsub vzero ?gap, g)" by (rule j0)
    show "0 < N" by (rule n)
  qed
  then obtain pos' g' where
    loop: "ringDo snd next_of (repositionStep ?m1 (N div 2) (N mod 2 = 0)) (Some 0)
           (vsub vzero ?gap, g) = Some (Inr (pos', g'))"
    and j: "layout_inv N ?gap l0 r0 N (pos', g')" by auto
  have fn: "firstNode g = Some 0" and nid: "nextNodeID g = N"
    using pl by (simp_all add: pre_layout_def ring_links_def)
  have res: "repositionNodes m g =
      Some (Inr (pos', m\<lparr>groupPosition := vadd vzero (menuOffsetItems m)\<rparr>, g'))"
    unfolding repositionNodes_def by (simp add: Let_def fn nid loop)
  have "pre_layout N (if left_ix N < N then Some (left_ix N) else l0) (Some (N div 2)) g'"
    using j n by (simp add: layout_inv_def pre_layout_def)
  moreover have "\<forall>j<N. position (heap g' ! j) = vscale (slot N j) ?gap"
    using j by (simp add: layout_inv_def)
  ultimately show ?thesis using res by blast
qed

lemma add_more:
  assumes rs: "ring_state n 0 l r m g"
  shows "\<exists>P. add act m g =
           (case repositionNodes (m\<lparr>itemTray := itemTray m @ [n], itemCount := itemCount m + 1\<rparr>) P of
              None \<Rightarrow> None
            | Some (Inl e) \<Rightarrow> Some (Inl e)
            | Some (Inr (_, m2, g11)) \<Rightarrow> Some (Inr (m2, g11)))
         \<and> pre_layout (Suc n) l (Some r) P"
proof -
  from rs have len: "length (heap g) = n" and n0: "0 < n" and nid: "nextNodeID g = n"
    and ln: "latestNode g = Some (n - 1)" and fn: "firstNode g = Some 0"
    and tr: "itemTray m = [0..<n]"
    by (auto simp: ring_state_def ring_links_def)
  define P where "P = (upd_node n (position_update (\<lambda>_. vzero))
                    (upd_node n (itemTag_update (\<lambda>_. n))
                      (upd_node 0 (prev_of_update (\<lambda>_. Some n))
                        (upd_node (n - Suc 0) (next_of_update (\<lambda>_. Some n))
                          (upd_node n (next_of_update (\<lambda>_. Some 0))
                            (upd_node n
                              (prev_of_update (\<lambda>_. Some (n - Suc 0)))
                              (g\<lparr>heap :=
                                   heap g @
                                   [\<lparr>id_of = n, selected = False,
 action = act, next_of = None, prev_of = None, position = vzero,
 itemTag = 0\<rparr>]\<rparr>))))
                       \<lparr>latestNode := Some n\<rparr>)
                     \<lparr>nextNodeID := Suc n\<rparr>))"
  have lt: "n - Suc 0 < Suc n" by simp
  have e: "add act m g =
           (case repositionNodes (m\<lparr>itemTray := itemTray m @ [n], itemCount := itemCount m + 1\<rparr>) P of
              None \<Rightarrow> None
            | Some (Inl e) \<Rightarrow> Some (Inl e)
            | Some (Inr (_, m2, g11)) \<Rightarrow> Some (Inr (m2, g11)))"
    unfolding add_def using n0 lt
    by (simp add: Let_def len nid ln fn tr deref_def assign_def sbind_def P_def)
  have hp: "heap P = ((((((heap g @ [\<lparr>id_of = n, selected = False,
      action = act, next_of = None, prev_of = None, position = vzero, itemTag = 0\<rparr>])
      [n := \<lparr>id_of = n, selected = False,
      action = act, next_of = Some 0, prev_of = Some (n - Suc 0), position = vzero, itemTag = n\<rparr>])
      [n - Suc 0 := (heap g ! (n - Suc 0))\<lparr>next_of := Some n\<rparr>])
      [0 := (if n = Suc 0 then (heap g ! 0)\<lparr>next_of := Some n\<rparr> else heap g ! 0)\<lparr>prev_of := Some n\<rparr>])))"
    using n0 len unfolding P_def
    by (auto simp: nth_list_update nth_append list_update_append list_eq_iff_nth_eq)
  have fp: "firstNode P = Some 0" "nextNodeID P = Suc n" "latestNode P = Some n"
    "clicked P = clicked g" "isMoving P = isMoving g" "nodeToSelect P = nodeToSelect g"
    "leftEdge P = leftEdge g" "rightEdge P = rightEdge g"
    by (simp_all add: P_def fn)
  have old: "\<And>k. k < n \<Longrightarrow> id_of (heap g ! k) = k \<and> next_of (heap g ! k) = Some (succ_ix n k)
     \<and> prev_of (heap g ! k) = Some (pred_ix n k) \<and> selected (heap g ! k) = (k = 0)"
    using rs by (simp add: ring_state_def ring_links_def)
  have nodes: "\<And>k. k < Suc n \<Longrightarrow> id_of (heap P ! k) = k \<and> next_of (heap P ! k) = Some (succ_ix (Suc n) k)
     \<and> prev_of (heap P ! k) = Some (pred_ix (Suc n) k) \<and> selected (heap P ! k) = (k = 0)"
  proof -
    fix k assume k: "k < Suc n"
    show "id_of (heap P ! k) = k \<and> next_of (heap P ! k) = Some (succ_ix (Suc n) k)
     \<and> prev_of (heap P ! k) = Some (pred_ix (Suc n) k) \<and> selected (heap P ! k) = (k = 0)"
    proof (cases "k = n")
      case True
      then show ?thesis using n0 len by (simp add: hp nth_list_update succ_ix_def pred_ix_def)
    next
      case False
      then have kn: "k < n" using k by simp
      show ?thesis using old[OF kn] old[of 0] old[of "n - Suc 0"] kn n0 len
        by (auto simp: hp nth_list_update nth_append succ_ix_def pred_ix_def)
    qed
  qed
  have "pre_layout (Suc n) l (Some r) P"
    unfolding pre_layout_def ring_links_def using nodes fp rs len
    by (simp add: ring_state_def hp)
  with e show ?thesis by blast
qed

lemma add_first:
  assumes h: "heap g = []" and nid: "nextNodeID g = 0" and tr: "itemTray m = []"
    and cl: "\<not> clicked g" "\<not> isMoving g"
  shows "\<exists>P. add act m g =
           (case repositionNodes (m\<lparr>itemTray := itemTray m @ [0], itemCount := itemCount m + 1\<rparr>) P of
              None \<Rightarrow> None
            | Some (Inl e) \<Rightarrow> Some (Inl e)
            | Some (Inr (_, m2, g11)) \<Rightarrow> Some (Inr (m2, g11)))
         \<and> pre_layout (Suc 0) (leftEdge g) (rightEdge g) P"
proof -
  define P where "P = g\<lparr>firstNode := Some 0, nodeToSelect := Some 0,
      latestNode := Some 0, nextNodeID := Suc 0,
      heap := [\<lparr>id_of = 0, selected = True, action = act, next_of = Some 0,
        prev_of = Some 0, position = vzero, itemTag = 0\<rparr>]\<rparr>"
  have e: "add act m g =
           (case repositionNodes (m\<lparr>itemTray := itemTray m @ [0], itemCount := itemCount m + 1\<rparr>) P of
              None \<Rightarrow> None
            | Some (Inl e) \<Rightarrow> Some (Inl e)
            | Some (Inr (_, m2, g11)) \<Rightarrow> Some (Inr (m2, g11)))"
    unfolding add_def
    by (simp add: Let_def h nid tr deref_def assign_def sbind_def P_def upd_node_def)
  have "pre_layout (Suc 0) (leftEdge g) (rightEdge g) P"
    using cl by (simp add: pre_layout_def ring_links_def P_def succ_ix_def pred_ix_def)
  with e show ?thesis by blast
qed

lemma Menu_fields:
  "itemTray (fst (Menu props g)) = []" "itemSelected (fst (Menu props g)) = 0"
  "revolvingMenu (fst (Menu props g))" "\<not> opened (fst (Menu props g))"
  "enabled (fst (Menu props g))" "itemCount (fst (Menu props g)) = 0"
  "snd (Menu props g) = g\<lparr>nextNodeID := 0, nodeToSelect := None, leftEdge := None, rightEdge := None\<rparr>"
  by (auto simp: Menu_def init_def Let_def split: option.splits)

lemma left_ix_less: "2 \<le> N \<Longrightarrow> left_ix N < N"
  by (auto simp: left_ix_def)

lemma pre_layout_ring_state:
  assumes "pre_layout N l (Some r) g" "r < N" "case l of None \<Rightarrow> N = 1 | Some a \<Rightarrow> a < N \<and> 2 \<le> N"
    "itemTray m = [0..<N]" "itemSelected m = 0" "revolvingMenu m" "0 < N"
  shows "ring_state N 0 l r m g"
  using assms by (simp add: pre_layout_def ring_state_def)

lemma fresh_laid_out:
  "0 < n \<Longrightarrow> \<exists>m g. fresh props n = Some (Inr (m, g)) \<and> laid_out n m g \<and> menu_after props n m"
proof (induction n)
  case 0
  then show ?case by simp
next
  case (Suc n)
  let ?M0 = "fst (Menu props module_init)"
  let ?G0 = "snd (Menu props module_init)"
  show ?case
  proof (cases "n = 0")
    case True
    have g0: "heap ?G0 = []" "nextNodeID ?G0 = 0" "\<not> clicked ?G0" "\<not> isMoving ?G0"
      "leftEdge ?G0 = None" "rightEdge ?G0 = None"
      by (simp_all add: Menu_fields module_init_def)
    from add_first[OF g0(1,2) Menu_fields(1)[of props module_init] g0(3,4), of None]
    obtain P where e: "add None ?M0 ?G0 =
           (case repositionNodes (?M0\<lparr>itemTray := itemTray ?M0 @ [0], itemCount := itemCount ?M0 + 1\<rparr>) P of
              None \<Rightarrow> None
            | Some (Inl e) \<Rightarrow> Some (Inl e)
            | Some (Inr (_, m2, g11)) \<Rightarrow> Some (Inr (m2, g11)))"
      and pl: "pre_layout (Suc 0) None None P" unfolding g0 by blast
    let ?m1 = "?M0\<lparr>itemTray := itemTray ?M0 @ [0], itemCount := itemCount ?M0 + 1\<rparr>"
    from repositionNodes_pre_layout[OF pl, of ?m1] obtain pos' g' where
      rp: "repositionNodes ?m1 P = Some (Inr (pos', ?m1\<lparr>groupPosition := vadd vzero (menuOffsetItems ?m1)\<rparr>, g'))"
      and pl': "pre_layout (Suc 0) (if left_ix (Suc 0) < Suc 0 then Some (left_ix (Suc 0)) else None) (Some (Suc 0 div 2)) g'"
      and ps: "\<forall>j<Suc 0. position (heap g' ! j) = vscale (slot (Suc 0) j) (gapBetweenItems ?m1)"
      by auto
    let ?m2 = "?m1\<lparr>groupPosition := vadd vzero (menuOffsetItems ?m1)\<rparr>"
    have fr: "fresh props (Suc n) = Some (Inr (?m2, g'))"
      using True rp by (simp add: fresh_def case_prod_beta e)
    have rs: "ring_state (Suc 0) 0 None 0 ?m2 g'"
      using pl' by (intro pre_layout_ring_state) (simp_all add: left_ix_def Menu_fields)
    have "laid_out (Suc 0) ?m2 g'" using rs ps by (simp add: laid_out_def)
    moreover have "menu_after props (Suc 0) ?m2" by (simp add: menu_after_def Menu_fields)
    ultimately show ?thesis using fr True by auto
  next
    case False
    then have n0: "0 < n" by simp
    from Suc.IH[OF n0] obtain m g where fr: "fresh props n = Some (Inr (m, g))"
      and la: "laid_out n m g" and mf: "menu_after props n m" by blast
    from la have rs: "ring_state n 0 (if n = 1 then None else Some (left_ix n)) (n div 2) m g"
      by (simp add: laid_out_def)
    let ?m1 = "m\<lparr>itemTray := itemTray m @ [n], itemCount := itemCount m + 1\<rparr>"
    from add_more[OF rs, of None] obtain P where e: "add None m g =
           (case repositionNodes ?m1 P of
              None \<Rightarrow> None
            | Some (Inl e) \<Rightarrow> Some (Inl e)
            | Some (Inr (_, m2, g11)) \<Rightarrow> Some (Inr (m2, g11)))"
      and pl: "pre_layout (Suc n) (if n = 1 then None else Some (left_ix n)) (Some (n div 2)) P" by blast
    from repositionNodes_pre_layout[OF pl, of ?m1] obtain pos' g' where
      rp: "repositionNodes ?m1 P = Some (Inr (pos', ?m1\<lparr>groupPosition := vadd vzero (menuOffsetItems ?m1)\<rparr>, g'))"
      and pl': "pre_layout (Suc n) (if left_ix (Suc n) < Suc n then Some (left_ix (Suc n))
                   else (if n = 1 then None else Some (left_ix n))) (Some (Suc n div 2)) g'"
      and ps: "\<forall>j<Suc n. position (heap g' ! j) = vscale (slot (Suc n) j) (gapBetweenItems ?m1)"
      by auto
    let ?m2 = "?m1\<lparr>groupPosition := vadd vzero (menuOffsetItems ?m1)\<rparr>"
    have fr': "fresh props (Suc n) = Some (Inr (?m2, g'))"
      using fr rp by (simp add: fresh_def e)
    have ltn: "left_ix (Suc n) < Suc n" using n0 by (intro left_ix_less) simp
    have mfields: "itemTray m = [0..<n]" "itemSelected m = 0" "revolvingMenu m"
      using rs by (simp_all add: ring_state_def)
    have rs': "ring_state (Suc n) 0 (Some (left_ix (Suc n))) (Suc n div 2) ?m2 g'"
      using pl' ltn n0 mfields by (intro pre_layout_ring_state) simp_all
    have "laid_out (Suc n) ?m2 g'" using rs' ps n0 by (simp add: laid_out_def)
    moreover have "menu_after props (Suc n) ?m2" using mf by (simp add: menu_after_def Menu_fields)
    ultimately show ?thesis using fr' by blast
  qed
qed

section \<open>The layout of a fresh menu\<close>

lemma follow_ring:
  "ring_links n g \<Longrightarrow> j + k < n \<Longrightarrow> follow g k (Some j) = Some (j + k)"
proof (induction k arbitrary: j)
  case 0
  then show ?case by simp
next
  case (Suc k)
  have j: "j < n" using Suc.prems(2) by simp
  have "follow g (Suc k) (Some j) = follow g k (Some (succ_ix n j))"
    by (simp add: ring_links_deref[OF Suc.prems(1) j] ring_links_links(2)[OF Suc.prems(1) j])
  also have "succ_ix n j = Suc j" using Suc.prems(2) by (simp add: succ_ix_def)
  also have "follow g k (Some (Suc j)) = Some (Suc j + k)"
    using Suc.IH[OF Suc.prems(1), of "Suc j"] Suc.prems(2) by simp
  finally show ?case by simp
qed

lemma traversal_ring: "ring_links n g \<Longrightarrow> k < n \<Longrightarrow> traversal g k = Some k"
  using follow_ring[of n g 0 k] by (simp add: traversal_def ring_links_def)

text \<open>
  C2. After \<open>n \<ge> 2\<close> items have been added to a fresh menu (each \<open>add\<close> ends with
  \<open>repositionNodes\<close>), \<open>rightEdge\<close> is the node at traversal index \<open>floor(n/2)\<close> and
  \<open>leftEdge\<close> is the node at traversal index \<open>floor(n/2) + 1\<close>, or the second item (index 1)
  when \<open>n = 2\<close>; both are set.
\<close>

theorem edges_after_layout:
  assumes "2 \<le> n"
  shows "holds (fresh props n) (\<lambda>m g.
           rightEdge g = traversal g (n div 2) \<and> rightEdge g \<noteq> None
         \<and> leftEdge g = traversal g (if n = 2 then 1 else n div 2 + 1) \<and> leftEdge g \<noteq> None)"
proof -
  from assms have n0: "0 < n" by simp
  from fresh_laid_out[OF n0, of props] obtain m g where
    fr: "fresh props n = Some (Inr (m, g))" and la: "laid_out n m g" by blast
  from la assms have rs: "ring_state n 0 (Some (left_ix n)) (n div 2) m g"
    by (simp add: laid_out_def)
  then have rl: "ring_links n g" and le: "leftEdge g = Some (left_ix n)"
    and re: "rightEdge g = Some (n div 2)" by (simp_all add: ring_state_def)
  have t1: "traversal g (n div 2) = Some (n div 2)"
    using traversal_ring[OF rl, of "n div 2"] n0 by simp
  have t2: "traversal g (left_ix n) = Some (left_ix n)"
    using traversal_ring[OF rl left_ix_less[OF assms]] .
  have li: "left_ix n = (if n = 2 then 1 else n div 2 + 1)" by (simp add: left_ix_def)
  show ?thesis
    unfolding fr holds_def using t1 t2 le re li by simp
qed

theorem edges_after_layout_witness:
  "(2::nat) \<le> 2 \<and> (2::nat) \<le> 7
   \<and> holds (fresh None 2) (\<lambda>m g. rightEdge g = traversal g 1 \<and> leftEdge g = traversal g 1
        \<and> leftEdge g = Some 1)
   \<and> holds (fresh None 7) (\<lambda>m g. rightEdge g = traversal g 3 \<and> leftEdge g = traversal g 4
        \<and> rightEdge g = Some 3 \<and> leftEdge g = Some 4)"
proof -
  have a: "holds (fresh None 2) (\<lambda>m g. leftEdge g = Some 1)"
    and b: "holds (fresh None 7) (\<lambda>m g. rightEdge g = Some 3 \<and> leftEdge g = Some 4)"
    by code_simp+
  show ?thesis
    using edges_after_layout[of 2 None] edges_after_layout[of 7 None] a b
    by (auto simp: holds_def split: option.splits sum.splits)
qed




section \<open>Commands on a well-formed ring\<close>

lemma request_loop:
  assumes rl: "ring_links n g" and n: "0 < n"
  shows "\<exists>q. ringDo (\<lambda>s. s) next_of (\<lambda>c s. Inr (request (F c) s)) (Some 0) g
            = Some (Inr (g\<lparr>motions := q\<rparr>))"
proof -
  have "\<exists>s'. ringDo (\<lambda>s. s) next_of (\<lambda>c s. Inr (request (F c) s)) (Some 0) g = Some (Inr s')
          \<and> (\<exists>q. s' = g\<lparr>motions := q\<rparr>)"
  proof (rule ringDo_next[where J="\<lambda>k s. \<exists>q. s = g\<lparr>motions := q\<rparr>" and n=n])
    show "\<And>k s. k < n \<Longrightarrow> \<exists>q. s = g\<lparr>motions := q\<rparr> \<Longrightarrow>
        \<exists>s'. Inr (request (F k) s) = Inr s' \<and> (\<exists>q. s' = g\<lparr>motions := q\<rparr>)"
      by (auto simp: request_def)
    show "\<And>k s. k \<le> n \<Longrightarrow> \<exists>q. s = g\<lparr>motions := q\<rparr> \<Longrightarrow> ring_links n s"
      using rl by (auto simp: ring_links_def)
    show "\<exists>q. g = g\<lparr>motions := q\<rparr>" by (rule exI[of _ "motions g"]) simp
    show "0 < n" by (rule n)
  qed
  then show ?thesis by blast
qed

lemma ring_state_frame [simp]:
  "ring_state n c l r m (g\<lparr>motions := q\<rparr>) = ring_state n c l r m g"
  "ring_state n c l r m (g\<lparr>keyPressed := b\<rparr>) = ring_state n c l r m g"
  "ring_state n c l r m (request x g) = ring_state n c l r m g"
  "ring_state n c l r (m\<lparr>opened := o1, enabled := o2\<rparr>) g = ring_state n c l r m g"
  by (simp_all add: ring_state_def ring_links_def request_def)

lemma ring_state_first: "ring_state n c l r m g \<Longrightarrow> firstNode g = Some 0 \<and> 0 < n \<and> ring_links n g"
  by (auto simp: ring_state_def ring_links_def)

lemma open_menu_ring_state:
  assumes rs: "ring_state n c l r m g"
  shows "\<exists>m' g'. open_menu m g = Some (Inr (m', g')) \<and> ring_state n c l r m' g' \<and> opened m'"
proof (cases "opened m")
  case True
  then show ?thesis using rs by (simp add: open_menu_def)
next
  case False
  from ring_state_first[OF rs] have fn: "firstNode g = Some 0" and n: "0 < n" and rl: "ring_links n g"
    by simp_all
  from request_loop[OF rl n, of ScaleRestore] obtain q1 where
    l1: "ringDo (\<lambda>s. s) next_of (\<lambda>c s. Inr (request (ScaleRestore c) s)) (Some 0) g
            = Some (Inr (g\<lparr>motions := q1\<rparr>))" by blast
  from request_loop[OF rl n, of FadeIn] obtain q2 where
    l2: "ringDo (\<lambda>s. s) next_of (\<lambda>c s. Inr (request (FadeIn c) s)) (Some 0) g
            = Some (Inr (g\<lparr>motions := q2\<rparr>))" by blast
  show ?thesis
    using False rs by (simp add: open_menu_def fn l1 l2)
qed

lemma close_menu_ring_state:
  assumes rs: "ring_state n c l r m g"
  shows "\<exists>m' g'. close_menu m g = Some (Inr (m', g')) \<and> ring_state n c l r m' g'
           \<and> \<not> opened m'"
proof (cases "opened m")
  case False
  then show ?thesis using rs by (simp add: close_menu_def)
next
  case True
  from ring_state_first[OF rs] have fn: "firstNode g = Some 0" and n: "0 < n" and rl: "ring_links n g"
    by simp_all
  from request_loop[OF rl n, of ScaleZero] obtain q1 where
    l1: "ringDo (\<lambda>s. s) next_of (\<lambda>c s. Inr (request (ScaleZero c) s)) (Some 0) g
            = Some (Inr (g\<lparr>motions := q1\<rparr>))" by blast
  show ?thesis
    using True rs by (simp add: close_menu_def fn l1)
qed

lemma selectItem_ring_state:
  assumes rs: "ring_state n c l r m g"
  shows "\<exists>g'. selectItem m g = Inr (m, g') \<and> ring_state n c l r m g'"
proof -
  from rs have rl: "ring_links n g" and c: "c < n" and ns: "nodeToSelect g = Some c"
    by (simp_all add: ring_state_def)
  show ?thesis
    using rs by (simp add: selectItem_def ns ring_links_deref[OF rl c] sbind_def)
qed

lemma blocked_ring_state:
  assumes rs: "ring_state n c l r m g" and b: "\<not> opened m \<or> n < 2"
  shows "moveToNext m g = Some (Inr (m, g\<lparr>keyPressed := False\<rparr>))"
    and "moveToPrev m g = Some (Inr (m, g\<lparr>keyPressed := False\<rparr>))"
  using rs b
  by (auto simp: moveToNext_def moveToPrev_def nextBlocked_def prevBlocked_def ring_state_def)

lemma ring_state_left: "ring_state n c l r m g \<Longrightarrow> 2 \<le> n \<Longrightarrow> \<exists>a. l = Some a"
  by (cases l) (auto simp: ring_state_def)

lemma perform_ring_state:
  assumes rs: "ring_state n c l r m g"
  shows "\<exists>m' g' c' l' r'. perform cmd m g = Some (Inr (m', g')) \<and> ring_state n c' l' r' m' g'
           \<and> (c', l', r') = moved cmd (opened m) n (c, l, r)
           \<and> opened m' = opened_after cmd (opened m)"
proof (cases cmd)
  case Open
  then show ?thesis using open_menu_ring_state[OF rs]
    by (auto simp: perform_def moved_def opened_after_def)
next
  case Close
  then show ?thesis using close_menu_ring_state[OF rs]
    by (auto simp: perform_def moved_def opened_after_def)
next
  case Select
  then show ?thesis using selectItem_ring_state[OF rs]
    by (auto simp: perform_def moved_def opened_after_def)
next
  case Next
  show ?thesis
  proof (cases "opened m \<and> 2 \<le> n")
    case True
    then obtain a where l: "l = Some a" using ring_state_left[OF rs] by blast
    from moveToNext_ring_state[OF rs[unfolded l]] True obtain g' where
      "moveToNext m g = Some (Inr (m\<lparr>itemSelected := succ_ix n c\<rparr>, g'))"
      "ring_state n (succ_ix n c) (Some (succ_ix n a)) a (m\<lparr>itemSelected := succ_ix n c\<rparr>) g'"
      by blast
    then show ?thesis using Next True l
      by (auto simp: perform_def moved_def opened_after_def)
  next
    case False
    then have b: "\<not> opened m \<or> n < 2" by auto
    show ?thesis using Next False blocked_ring_state(1)[OF rs b] rs
      by (auto simp: perform_def moved_def opened_after_def)
  qed
next
  case Prev
  show ?thesis
  proof (cases "opened m \<and> 2 \<le> n")
    case True
    then obtain a where l: "l = Some a" using ring_state_left[OF rs] by blast
    from moveToPrev_ring_state[OF rs[unfolded l]] True obtain g' where
      "moveToPrev m g = Some (Inr (m\<lparr>itemSelected := pred_ix n c\<rparr>, g'))"
      "ring_state n (pred_ix n c) (Some r) (pred_ix n r) (m\<lparr>itemSelected := pred_ix n c\<rparr>) g'"
      by blast
    then show ?thesis using Prev True l
      by (auto simp: perform_def moved_def opened_after_def)
  next
    case False
    then have b: "\<not> opened m \<or> n < 2" by auto
    show ?thesis using Prev False blocked_ring_state(2)[OF rs b] rs
      by (auto simp: perform_def moved_def opened_after_def)
  qed
qed

lemma succ_pred_ix: "k < n \<Longrightarrow> succ_ix n (pred_ix n k) = k" "k < n \<Longrightarrow> pred_ix n (succ_ix n k) = k"
  by (auto simp: succ_ix_def pred_ix_def)

lemma edges_cond_moved:
  assumes "edges_cond n c l r" "r < n" "moved cmd op n (c, l, r) = (c', l', r')"
  shows "edges_cond n c' l' r'"
  using assms
  by (auto simp: edges_cond_def moved_def succ_pred_ix split: if_splits)

lemma run_ring_state:
  assumes "ring_state n c l r m g" "edges_cond n c l r"
  shows "\<exists>m' g' c' l' r'. run cs (m, g) = Some (Inr (m', g')) \<and> ring_state n c' l' r' m' g'
           \<and> edges_cond n c' l' r'"
  using assms
proof (induction cs arbitrary: c l r m g)
  case Nil
  then show ?case by auto
next
  case (Cons cmd cs)
  from perform_ring_state[OF Cons.prems(1), of cmd] obtain m1 g1 c1 l1 r1 where
    p: "perform cmd m g = Some (Inr (m1, g1))" and rs1: "ring_state n c1 l1 r1 m1 g1"
    and mv: "(c1, l1, r1) = moved cmd (opened m) n (c, l, r)" by blast
  have rn: "r < n" using Cons.prems(1) by (simp add: ring_state_def)
  have ec1: "edges_cond n c1 l1 r1"
    using edges_cond_moved[OF Cons.prems(2) rn mv[symmetric]] .
  from Cons.IH[OF rs1 ec1] show ?case by (simp add: p)
qed

lemma session_ring_state:
  assumes n: "0 < n"
  shows "\<exists>m g c l r. session props n cs = Some (Inr (m, g)) \<and> ring_state n c l r m g
           \<and> edges_cond n c l r"
proof -
  from fresh_laid_out[OF n, of props] obtain m g where
    fr: "fresh props n = Some (Inr (m, g))" and la: "laid_out n m g" by blast
  let ?l = "if n = 1 then None else Some (left_ix n)"
  from la have rs: "ring_state n 0 ?l (n div 2) m g" by (simp add: laid_out_def)
  have ec: "edges_cond n 0 ?l (n div 2)"
    by (auto simp: edges_cond_def left_ix_def succ_ix_def)
  from run_ring_state[OF rs ec, of cs] show ?thesis by (simp add: session_def fr)
qed

lemma run_append:
  "run (cs @ ds) mg = (case run cs mg of None \<Rightarrow> None | Some (Inl e) \<Rightarrow> Some (Inl e)
                        | Some (Inr mg') \<Rightarrow> run ds mg')"
  by (induction cs arbitrary: mg) (auto split: option.splits sum.splits)

lemma session_append:
  "session props n cs = Some (Inr (m, g)) \<Longrightarrow> session props n (cs @ ds) = run ds (m, g)"
  by (auto simp: session_def run_append split: option.splits sum.splits)

lemma ring_state_seam:
  assumes rs: "ring_state n c (Some (succ_ix n r)) r m g"
  shows "seam_ok g"
proof -
  from rs have rl: "ring_links n g" and r: "r < n" by (simp_all add: ring_state_def)
  have s: "succ_ix n r < n" using r by (rule succ_ix_less)
  show ?thesis
    using rs
    by (simp add: seam_ok_def prev_at_def ring_links_deref[OF rl s] ring_links_links(3)[OF rl s]
          succ_pred_ix(2)[OF r] ring_state_def)
qed

lemma ring_state_seam_iff:
  assumes rs: "ring_state n c (Some a) r m g"
  shows "seam_ok g \<longleftrightarrow> a = succ_ix n r"
proof -
  from rs have rl: "ring_links n g" and r: "r < n" and a: "a < n" by (simp_all add: ring_state_def)
  have "seam_ok g \<longleftrightarrow> r = pred_ix n a"
    using rs
    by (simp add: seam_ok_def prev_at_def ring_links_deref[OF rl a] ring_links_links(3)[OF rl a]
          ring_state_def)
  also have "\<dots> \<longleftrightarrow> a = succ_ix n r"
    using succ_pred_ix[OF a] succ_pred_ix[OF r] by auto
  finally show ?thesis .
qed

lemma ring_state_count:
  assumes rs: "ring_state n c l r m g"
  shows "selected_count g = 1"
proof -
  from rs have len: "length (heap g) = n" and c: "c < n"
    and sel: "\<forall>j<n. selected (heap g ! j) = (j = c)"
    by (simp_all add: ring_state_def ring_links_def)
  have "{i. i < length (heap g) \<and> selected (heap g ! i)} = {c}"
    using len c sel by auto
  then show ?thesis
    by (simp add: selected_count_def length_filter_conv_card)
qed

text \<open>
  C4, as the code has it. On a fresh menu of \<open>n \<ge> 3\<close> items, \<open>rightEdge == leftEdge.prev\<close>
  holds after the initial layout and after every sequence of commands. On a menu of two
  items it holds after every completed rotation, that is, after a \<open>moveToNext\<close> or
  \<open>moveToPrev\<close> called while the menu is open.
\<close>

theorem seam_invariant:
  assumes "2 \<le> n"
  shows "(3 \<le> n \<longrightarrow> seam_after (session props n cs))
       \<and> ((c = Next \<or> c = Prev) \<and> open_after (session props n cs)
            \<longrightarrow> seam_after (session props n (cs @ [c])))"
proof -
  from assms have n0: "0 < n" by simp
  from session_ring_state[OF n0, of props cs] obtain m g cc l r where
    se: "session props n cs = Some (Inr (m, g))" and rs: "ring_state n cc l r m g"
    and ec: "edges_cond n cc l r" by blast
  obtain a where l: "l = Some a" using ring_state_left[OF rs assms] by blast
  have one: "seam_after (session props n cs)" if "3 \<le> n"
  proof -
    from ec that have "a = succ_ix n r" by (simp add: edges_cond_def l)
    then show ?thesis
      using ring_state_seam[of n cc r m g] rs l by (simp add: seam_after_def holds_def se)
  qed
  have two: "seam_after (session props n (cs @ [c]))"
    if c: "c = Next \<or> c = Prev" and op: "open_after (session props n cs)"
  proof -
    from op have om: "opened m" by (simp add: open_after_def holds_def se)
    from perform_ring_state[OF rs, of c] obtain m1 g1 c1 l1 r1 where
      p: "perform c m g = Some (Inr (m1, g1))" and rs1: "ring_state n c1 l1 r1 m1 g1"
      and mv: "(c1, l1, r1) = moved c (opened m) n (cc, l, r)" by blast
    have rn: "r < n" using rs by (simp add: ring_state_def)
    have "l1 = Some (succ_ix n r1)"
      using mv c om assms l rn by (auto simp: moved_def succ_pred_ix)
    then have "seam_ok g1" using ring_state_seam[of n c1 r1 m1 g1] rs1 by simp
    then show ?thesis
      by (simp add: seam_after_def holds_def session_append[OF se] p)
  qed
  from one two show ?thesis by blast
qed

theorem seam_invariant_witness:
  "(2::nat) \<le> 3 \<and> (3::nat) \<le> 3 \<and> (2::nat) \<le> 2
   \<and> seam_after (session None 3 [Open, Select, Close])
   \<and> open_after (session None 2 [Open]) \<and> seam_after (session None 2 ([Open] @ [Prev]))
   \<and> seam_view (session None 2 [Open, Prev]) = Some (Some 1, Some 0, Some 0)"
proof -
  have o: "open_after (session None 2 [Open])" by code_simp
  have v: "seam_view (session None 2 [Open, Prev]) = Some (Some 1, Some 0, Some 0)" by code_simp
  show ?thesis
    using seam_invariant[where n=3 and props=None and cs="[Open, Select, Close]" and c=Next]
      seam_invariant[where n=2 and props=None and cs="[Open]" and c=Prev] o v
    by simp
qed

text \<open>
  C4 as stated fails after the initial layout of two items: \<open>leftEdge\<close> and \<open>rightEdge\<close> are
  both the second item (address 1), while \<open>leftEdge.prev\<close> is the first (address 0).
\<close>

theorem two_items_seam_broken:
  "seam_view (fresh None 2) = Some (Some 1, Some 1, Some 0) \<and> \<not> seam_after (fresh None 2)"
  by code_simp

text \<open>
  C6, as the code has it. After any sequence of \<open>open\<close>, \<open>close\<close>, \<open>moveToNext\<close>,
  \<open>moveToPrev\<close> and \<open>selectItem\<close> calls on a fresh menu of \<open>n \<ge> 1\<close> items, every call has
  returned normally and exactly one node has \<open>selected = true\<close>, whether the menu is open
  or closed.
\<close>

theorem exactly_one_selected:
  assumes "0 < n"
  shows "holds (session props n cs) (\<lambda>m g. selected_count g = 1)"
proof -
  from session_ring_state[OF assms, of props cs] obtain m g c l r where
    se: "session props n cs = Some (Inr (m, g))" and rs: "ring_state n c l r m g" by blast
  show ?thesis using ring_state_count[OF rs] by (simp add: holds_def se)
qed

theorem exactly_one_selected_witness:
  "(0::nat) < 4 \<and> holds (session None 4 [Open, Next, Select, Prev, Prev, Close, Next, Open])
      (\<lambda>m g. selected_count g = 1)
   \<and> count_view (session None 4 [Open, Next, Select, Prev, Prev, Close, Next, Open]) = Some (True, 1)"
proof -
  have v: "count_view (session None 4 [Open, Next, Select, Prev, Prev, Close, Next, Open]) = Some (True, 1)"
    by code_simp
  show ?thesis
    using exactly_one_selected[of 4 None "[Open, Next, Select, Prev, Prev, Close, Next, Open]"] v
    by simp
qed

text \<open>
  C6 as stated fails on a closed menu: \<open>close\<close> leaves the flag of the selected node set,
  and so does a menu that has never been opened.
\<close>

theorem closed_menu_keeps_selection:
  "count_view (session None 3 [Open, Next, Close]) = Some (False, 1)
   \<and> count_view (session None 3 []) = Some (False, 1)"
  by code_simp

lemma ring_state_selected_map:
  assumes "ring_state n c l r m g" "ring_state n c l' r' m' g'"
  shows "map selected (heap g) = map selected (heap g')"
  using assms by (auto simp: ring_state_def ring_links_def intro!: nth_equalityI)

text \<open>
  C5, as the code has it. On a fresh menu of \<open>n \<ge> 1\<close> items that is open after any
  sequence of commands, \<open>moveToNext\<close> followed by \<open>moveToPrev\<close> restores the selected node
  (and the \<open>selected\<close> flags) and \<open>leftEdge\<close>. It restores \<open>rightEdge\<close> too, provided that on
  a menu of two items \<open>rightEdge == leftEdge.prev\<close> held before the pair of calls.
\<close>

theorem next_then_prev_restores:
  assumes "0 < n" and "open_after (session props n cs)"
  shows "selection_view (session props n (cs @ [Next, Prev])) = selection_view (session props n cs)
       \<and> selection_view (session props n cs) \<noteq> None
       \<and> ((n = 2 \<longrightarrow> seam_after (session props n cs))
            \<longrightarrow> right_view (session props n (cs @ [Next, Prev])) = right_view (session props n cs))"
proof -
  from session_ring_state[OF assms(1), of props cs] obtain m g c l r where
    se: "session props n cs = Some (Inr (m, g))" and rs: "ring_state n c l r m g"
    and ec: "edges_cond n c l r" by blast
  from assms(2) have om: "opened m" by (simp add: open_after_def holds_def se)
  show ?thesis
  proof (cases "2 \<le> n")
    case False
    then have b: "\<not> opened m \<or> n < 2" by simp
    have rs1: "ring_state n c l r m (g\<lparr>keyPressed := False\<rparr>)" using rs by simp
    have "run [Next, Prev] (m, g) = Some (Inr (m, g\<lparr>keyPressed := False, keyPressed := False\<rparr>))"
      using blocked_ring_state(1)[OF rs b] blocked_ring_state(2)[OF rs1 b]
      by (simp add: perform_def)
    then have "session props n (cs @ [Next, Prev])
        = Some (Inr (m, g\<lparr>keyPressed := False, keyPressed := False\<rparr>))"
      by (simp only: session_append[OF se])
    then show ?thesis
      by (simp add: se selection_view_def right_view_def)
  next
    case True
    then obtain a where l: "l = Some a" using ring_state_left[OF rs] by blast
    have an: "a < n" and cn: "c < n" and rn: "r < n" using rs l by (simp_all add: ring_state_def)
    from moveToNext_ring_state[OF rs[unfolded l] om] obtain g1 where
      p1: "moveToNext m g = Some (Inr (m\<lparr>itemSelected := succ_ix n c\<rparr>, g1))" and
      rs1: "ring_state n (succ_ix n c) (Some (succ_ix n a)) a (m\<lparr>itemSelected := succ_ix n c\<rparr>) g1"
      by blast
    have om1: "opened (m\<lparr>itemSelected := succ_ix n c\<rparr>)" using om by simp
    from moveToPrev_ring_state[OF rs1 om1] obtain g2 where
      p2: "moveToPrev (m\<lparr>itemSelected := succ_ix n c\<rparr>) g1
             = Some (Inr (m\<lparr>itemSelected := succ_ix n c, itemSelected := pred_ix n (succ_ix n c)\<rparr>, g2))" and
      rs2: "ring_state n (pred_ix n (succ_ix n c)) (Some a) (pred_ix n a)
              (m\<lparr>itemSelected := succ_ix n c, itemSelected := pred_ix n (succ_ix n c)\<rparr>) g2"
      by auto
    have rs2': "ring_state n c (Some a) (pred_ix n a)
              (m\<lparr>itemSelected := succ_ix n c, itemSelected := pred_ix n (succ_ix n c)\<rparr>) g2"
      using rs2 by (simp add: succ_pred_ix(2)[OF cn])
    have run2: "run [Next, Prev] (m, g)
        = Some (Inr (m\<lparr>itemSelected := succ_ix n c, itemSelected := pred_ix n (succ_ix n c)\<rparr>, g2))"
      by (simp add: perform_def p1 p2)
    have se2: "session props n (cs @ [Next, Prev])
        = Some (Inr (m\<lparr>itemSelected := succ_ix n c, itemSelected := pred_ix n (succ_ix n c)\<rparr>, g2))"
      by (simp only: session_append[OF se] run2)
    have f: "nodeToSelect g = Some c" "leftEdge g = Some a" "rightEdge g = Some r"
      using rs l by (simp_all add: ring_state_def)
    have f2: "nodeToSelect g2 = Some c" "leftEdge g2 = Some a" "rightEdge g2 = Some (pred_ix n a)"
      using rs2' by (simp_all add: ring_state_def)
    have sm: "map selected (heap g2) = map selected (heap g)"
      using ring_state_selected_map[OF rs2' rs[unfolded l]] .
    have sel: "selection_view (session props n (cs @ [Next, Prev])) = selection_view (session props n cs)"
      by (simp add: se2 se selection_view_def f f2 sm)
    have right: "right_view (session props n (cs @ [Next, Prev])) = right_view (session props n cs)"
      if h: "n = 2 \<longrightarrow> seam_after (session props n cs)"
    proof -
      have "a = succ_ix n r"
      proof (cases "n = 2")
        case True
        with h have "seam_after (session props n cs)" by blast
        then have "seam_ok g" unfolding se by (simp add: seam_after_def holds_def)
        then show ?thesis using ring_state_seam_iff[OF rs[unfolded l]] by simp
      next
        case False
        then show ?thesis using ec \<open>2 \<le> n\<close> l by (simp add: edges_cond_def)
      qed
      then have "pred_ix n a = r" using succ_pred_ix(2)[OF rn] by simp
      then show ?thesis
        by (simp add: se2 se right_view_def f f2)
    qed
    show ?thesis using sel right by (simp add: se selection_view_def)
  qed
qed

theorem next_then_prev_restores_witness:
  "(0::nat) < 2 \<and> open_after (session None 2 [Open, Prev]) \<and> seam_after (session None 2 [Open, Prev])
   \<and> selection_view (session None 2 ([Open, Prev] @ [Next, Prev])) = selection_view (session None 2 [Open, Prev])
   \<and> right_view (session None 2 ([Open, Prev] @ [Next, Prev])) = right_view (session None 2 [Open, Prev])
   \<and> right_view (session None 2 [Open, Prev]) = Some (Some 0)"
proof -
  have o: "open_after (session None 2 [Open, Prev])" and s: "seam_after (session None 2 [Open, Prev])"
    and v: "right_view (session None 2 [Open, Prev]) = Some (Some 0)"
    by code_simp+
  show ?thesis
    using next_then_prev_restores[where n=2 and props=None and cs="[Open, Prev]"] o s v
    by simp
qed

text \<open>
  C5 as stated fails on a freshly laid out menu of two items: before the pair of calls
  \<open>rightEdge\<close> is the second item (address 1), after it the first (address 0).
\<close>

theorem two_items_right_edge_not_restored:
  "right_view (session None 2 [Open]) = Some (Some 1)
   \<and> right_view (session None 2 [Open, Next, Prev]) = Some (Some 0)"
  by code_simp




section \<open>Module state shared between menus\<close>



section \<open>Jumping to a target\<close>
















text \<open>Two calls that the amended statements leave out raise a \<open>TypeError\<close>: \<open>selectItem\<close>
  on an open menu without items reads \<open>nodeToSelect.node\<close> of null, and a click on an
  unknown tag on an open menu of one item reads \<open>end.id\<close> of the null \<open>leftEdge\<close>.\<close>

lemma null_reads_raise:
  "session None 0 [Open, Select] = Some (Inl TypeError)"
  "raises (jump_after (session None 1 [Open]) 5)"
  by code_simp+

section \<open>Scenarios\<close>

text \<open>
  C3. Five items added to a fresh menu get the ids 0 to 4; the node with id 0 is the
  selected one, \<open>rightEdge\<close> is the node with id 2 and \<open>leftEdge\<close> the node with id 3.
  On the opened menu, three calls of \<open>moveToNext\<close> select id 1, then id 2, then id 3, and
  each call moves \<open>leftEdge\<close> and \<open>rightEdge\<close> on by one node (3, 4, 0, 1 and 2, 3, 4, 0).
\<close>

theorem five_items_three_rotations:
  "view (session None 5 []) = Some ([0], Some 0, Some 3, Some 2)
   \<and> view (session None 5 [Open]) = Some ([0], Some 0, Some 3, Some 2)
   \<and> view (session None 5 [Open, Next]) = Some ([1], Some 1, Some 4, Some 3)
   \<and> view (session None 5 [Open, Next, Next]) = Some ([2], Some 2, Some 0, Some 4)
   \<and> view (session None 5 [Open, Next, Next, Next]) = Some ([3], Some 3, Some 1, Some 0)"
  by code_simp

text \<open>
  C7. A menu constructed with \<^verbatim>\<open>{ revolvingMenu: false }\<close> still has
  \<open>revolvingMenu = true\<close>: \<open>init\<close> reads the flag with
  \<^verbatim>\<open>(_properties && _properties.revolvingMenu) ? _properties.revolvingMenu : true\<close>,
  which yields \<open>true\<close> for a false flag. With three items, two calls of \<open>moveToNext\<close>
  select the last item (id 2), and the third call does not stop there: it wraps to id 0.
  Likewise \<open>moveToPrev\<close> on the first item wraps to id 2.
\<close>

theorem revolving_flag_false_is_ignored:
  "revolvingMenu (fst (Menu (Some no_revolve) module_init))
   \<and> view (session (Some no_revolve) 3 [Open, Next, Next]) = Some ([2], Some 2, Some 1, Some 0)
   \<and> view (session (Some no_revolve) 3 [Open, Next, Next, Next]) = Some ([0], Some 0, Some 2, Some 1)
   \<and> view (session (Some no_revolve) 3 [Open, Prev]) = Some ([2], Some 2, Some 1, Some 0)"
  by code_simp

text \<open>The guards themselves do stop a menu whose flag is false: \<open>moveToNext\<close> on the last
  item and \<open>moveToPrev\<close> on the first only clear \<open>keyPressed\<close>.\<close>

lemma non_revolving_guards:
  "\<not> revolvingMenu m \<Longrightarrow> itemSelected m + 1 \<ge> length (itemTray m) \<Longrightarrow>
     moveToNext m g = Some (Inr (m, g\<lparr>keyPressed := False\<rparr>))"
  "\<not> revolvingMenu m \<Longrightarrow> itemSelected m = 0 \<Longrightarrow>
     moveToPrev m g = Some (Inr (m, g\<lparr>keyPressed := False\<rparr>))"
  by (auto simp: moveToNext_def moveToPrev_def nextBlocked_def prevBlocked_def)

end
